theory Spec2Isabelle
  imports Main "HOL-Library.Multiset"
begin

section \<open>Data model (feed/models.py)\<close>

text \<open>
  Primary keys and user ids are natural numbers, timestamps are integers counting
  microseconds (the resolution of a Python \<^verbatim>\<open>datetime\<close>), and every table is the list
  of its rows in storage order.  Only the columns that the views read are kept.
\<close>

type_synonym user_id = nat
type_synonym time = int

record User =
  u_id :: user_id
  u_username :: string

record Post =
  p_id :: nat
  p_author :: user_id
  p_body :: string
  p_created_at :: time

record Comment =
  c_id :: nat
  c_post :: nat
  c_author :: user_id
  c_parent_id :: "nat option"
  c_body :: string
  c_created_at :: time

record PostLike =
  pl_post :: nat
  pl_user :: user_id
  pl_created_at :: time

record CommentLike =
  cl_comment :: nat
  cl_user :: user_id
  cl_created_at :: time

record KarmaEvent =
  ke_user :: user_id
  ke_actor :: user_id
  ke_event_type :: string
  ke_delta :: int
  ke_post :: "nat option"
  ke_comment :: "nat option"
  ke_created_at :: time

record db =
  users :: "User list"
  posts :: "Post list"
  comments :: "Comment list"
  post_likes :: "PostLike list"
  comment_likes :: "CommentLike list"
  karma_events :: "KarmaEvent list"

datatype error = Http404 | IntegrityError

section \<open>The persistence primitives the views call\<close>

text \<open>\<^verbatim>\<open>get_object_or_404(Model, id=...)\<close>: the row with that id, or the 404 failure.\<close>

definition get_post_or_404 :: "db \<Rightarrow> nat \<Rightarrow> error + Post" where
  "get_post_or_404 s post_id =
     (case find (\<lambda>p. p_id p = post_id) (posts s) of
        None \<Rightarrow> Inl Http404
      | Some p \<Rightarrow> Inr p)"

definition get_comment_or_404 :: "db \<Rightarrow> nat \<Rightarrow> error + Comment" where
  "get_comment_or_404 s comment_id =
     (case find (\<lambda>c. c_id c = comment_id) (comments s) of
        None \<Rightarrow> Inl Http404
      | Some c \<Rightarrow> Inr c)"

text \<open>
  \<^verbatim>\<open>PostLike.objects.create(post=..., user=...)\<close> under the constraint
  \<^verbatim>\<open>uniq_post_like\<close> on (post, user): the insert is refused with IntegrityError when a
  row for the pair is already stored.
\<close>

definition PostLike_create :: "db \<Rightarrow> nat \<Rightarrow> user_id \<Rightarrow> time \<Rightarrow> error + db" where
  "PostLike_create s post user now =
     (if \<exists>r \<in> set (post_likes s). pl_post r = post \<and> pl_user r = user
      then Inl IntegrityError
      else Inr (s\<lparr>post_likes := post_likes s @
                  [\<lparr>pl_post = post, pl_user = user, pl_created_at = now\<rparr>]\<rparr>))"

definition CommentLike_create :: "db \<Rightarrow> nat \<Rightarrow> user_id \<Rightarrow> time \<Rightarrow> error + db" where
  "CommentLike_create s comment user now =
     (if \<exists>r \<in> set (comment_likes s). cl_comment r = comment \<and> cl_user r = user
      then Inl IntegrityError
      else Inr (s\<lparr>comment_likes := comment_likes s @
                  [\<lparr>cl_comment = comment, cl_user = user, cl_created_at = now\<rparr>]\<rparr>))"

text \<open>
  \<^verbatim>\<open>Model.objects.filter(target=..., user=...).delete()\<close>: removes every matching row and
  returns how many were removed.
\<close>

definition PostLike_delete :: "db \<Rightarrow> nat \<Rightarrow> user_id \<Rightarrow> nat \<times> db" where
  "PostLike_delete s post user =
     (length (filter (\<lambda>r. pl_post r = post \<and> pl_user r = user) (post_likes s)),
      s\<lparr>post_likes := filter (\<lambda>r. \<not> (pl_post r = post \<and> pl_user r = user)) (post_likes s)\<rparr>)"

definition CommentLike_delete :: "db \<Rightarrow> nat \<Rightarrow> user_id \<Rightarrow> nat \<times> db" where
  "CommentLike_delete s comment user =
     (length (filter (\<lambda>r. cl_comment r = comment \<and> cl_user r = user) (comment_likes s)),
      s\<lparr>comment_likes :=
          filter (\<lambda>r. \<not> (cl_comment r = comment \<and> cl_user r = user)) (comment_likes s)\<rparr>)"

text \<open>
  The check constraint \<^verbatim>\<open>karmaevent_exactly_one_target\<close> of \<^verbatim>\<open>KarmaEvent.Meta\<close>, and
  \<^verbatim>\<open>KarmaEvent.objects.create\<close>, which appends the row when the constraint holds and
  fails with IntegrityError otherwise.
\<close>

definition karmaevent_exactly_one_target :: "KarmaEvent \<Rightarrow> bool" where
  "karmaevent_exactly_one_target e \<longleftrightarrow>
     (ke_post e \<noteq> None \<and> ke_comment e = None) \<or> (ke_post e = None \<and> ke_comment e \<noteq> None)"

definition KarmaEvent_create :: "db \<Rightarrow> KarmaEvent \<Rightarrow> error + db" where
  "KarmaEvent_create s e =
     (if karmaevent_exactly_one_target e
      then Inr (s\<lparr>karma_events := karma_events s @ [e]\<rparr>)
      else Inl IntegrityError)"

section \<open>The like views (feed/views.py)\<close>

datatype http_method = POST | DELETE

record like_response =
  liked :: bool
  like_count :: nat

text \<open>
  \<^verbatim>\<open>post_like\<close>.  The body of \<^verbatim>\<open>transaction.atomic()\<close> either commits the state it
  reached or, after a database error, leaves the state it started from.  On the POST
  branch an IntegrityError of either insert is caught and the answer is still
  \<^verbatim>\<open>liked = True\<close>; on the DELETE branch nothing is caught, so an error of the ledger
  insert would leave the view.  The count is taken from the table after the block.
\<close>

definition post_like ::
    "db \<Rightarrow> http_method \<Rightarrow> nat \<Rightarrow> user_id \<Rightarrow> time \<Rightarrow> error + (db \<times> like_response)" where
  "post_like s method post_id request_user now =
     (case get_post_or_404 s post_id of
        Inl e \<Rightarrow> Inl e
      | Inr post \<Rightarrow>
          (case
             (if method = POST then
                (case PostLike_create s (p_id post) request_user now of
                   Inl IntegrityError \<Rightarrow> Inr (s, True)
                 | Inl e \<Rightarrow> Inl e
                 | Inr s1 \<Rightarrow>
                     (case KarmaEvent_create s1
                             \<lparr>ke_user = p_author post, ke_actor = request_user,
                              ke_event_type = ''post_like'', ke_delta = 5,
                              ke_post = Some (p_id post), ke_comment = None,
                              ke_created_at = now\<rparr> of
                        Inl IntegrityError \<Rightarrow> Inr (s, True)
                      | Inl e \<Rightarrow> Inl e
                      | Inr s2 \<Rightarrow> Inr (s2, True)))
              else
                (case PostLike_delete s (p_id post) request_user of
                   (deleted, s1) \<Rightarrow>
                     if deleted \<noteq> 0 then
                       (case KarmaEvent_create s1
                               \<lparr>ke_user = p_author post, ke_actor = request_user,
                                ke_event_type = ''post_unlike'', ke_delta = - 5,
                                ke_post = Some (p_id post), ke_comment = None,
                                ke_created_at = now\<rparr> of
                          Inl e \<Rightarrow> Inl e
                        | Inr s2 \<Rightarrow> Inr (s2, False))
                     else Inr (s1, False))) of
             Inl e \<Rightarrow> Inl e
           | Inr (s', liked_flag) \<Rightarrow>
               Inr (s', \<lparr>liked = liked_flag,
                         like_count =
                           length (filter (\<lambda>r. pl_post r = p_id post) (post_likes s'))\<rparr>)))"

text \<open>\<^verbatim>\<open>comment_like\<close>: the same view over CommentLike, with deltas +1 and -1.\<close>

definition comment_like ::
    "db \<Rightarrow> http_method \<Rightarrow> nat \<Rightarrow> user_id \<Rightarrow> time \<Rightarrow> error + (db \<times> like_response)" where
  "comment_like s method comment_id request_user now =
     (case get_comment_or_404 s comment_id of
        Inl e \<Rightarrow> Inl e
      | Inr comment \<Rightarrow>
          (case
             (if method = POST then
                (case CommentLike_create s (c_id comment) request_user now of
                   Inl IntegrityError \<Rightarrow> Inr (s, True)
                 | Inl e \<Rightarrow> Inl e
                 | Inr s1 \<Rightarrow>
                     (case KarmaEvent_create s1
                             \<lparr>ke_user = c_author comment, ke_actor = request_user,
                              ke_event_type = ''comment_like'', ke_delta = 1,
                              ke_post = None, ke_comment = Some (c_id comment),
                              ke_created_at = now\<rparr> of
                        Inl IntegrityError \<Rightarrow> Inr (s, True)
                      | Inl e \<Rightarrow> Inl e
                      | Inr s2 \<Rightarrow> Inr (s2, True)))
              else
                (case CommentLike_delete s (c_id comment) request_user of
                   (deleted, s1) \<Rightarrow>
                     if deleted \<noteq> 0 then
                       (case KarmaEvent_create s1
                               \<lparr>ke_user = c_author comment, ke_actor = request_user,
                                ke_event_type = ''comment_unlike'', ke_delta = - 1,
                                ke_post = None, ke_comment = Some (c_id comment),
                                ke_created_at = now\<rparr> of
                          Inl e \<Rightarrow> Inl e
                        | Inr s2 \<Rightarrow> Inr (s2, False))
                     else Inr (s1, False))) of
             Inl e \<Rightarrow> Inl e
           | Inr (s', liked_flag) \<Rightarrow>
               Inr (s', \<lparr>liked = liked_flag,
                         like_count =
                           length (filter (\<lambda>r. cl_comment r = c_id comment)
                                     (comment_likes s'))\<rparr>)))"

section \<open>The toggle operation over both target kinds\<close>

text \<open>
  The two like views are routed by target kind (feed/urls.py: \<^verbatim>\<open>posts/<id>/like/\<close> and
  \<^verbatim>\<open>comments/<id>/like/\<close>) and by HTTP method: POST is a like request, DELETE an
  unlike request.
\<close>

datatype target_kind = PostTarget | CommentTarget

definition toggleLike ::
    "db \<Rightarrow> target_kind \<Rightarrow> http_method \<Rightarrow> nat \<Rightarrow> user_id \<Rightarrow> time \<Rightarrow> error + (db \<times> like_response)" where
  "toggleLike s kind method target_id request_user now =
     (case kind of
        PostTarget \<Rightarrow> post_like s method target_id request_user now
      | CommentTarget \<Rightarrow> comment_like s method target_id request_user now)"

text \<open>Observations of a database state, per target kind.\<close>

definition target_author :: "db \<Rightarrow> target_kind \<Rightarrow> nat \<Rightarrow> user_id option" where
  "target_author s kind target_id =
     (case kind of
        PostTarget \<Rightarrow> map_option p_author (find (\<lambda>p. p_id p = target_id) (posts s))
      | CommentTarget \<Rightarrow> map_option c_author (find (\<lambda>c. c_id c = target_id) (comments s)))"

definition like_relations :: "db \<Rightarrow> target_kind \<Rightarrow> (nat \<times> user_id) list" where
  "like_relations s kind =
     (case kind of
        PostTarget \<Rightarrow> map (\<lambda>r. (pl_post r, pl_user r)) (post_likes s)
      | CommentTarget \<Rightarrow> map (\<lambda>r. (cl_comment r, cl_user r)) (comment_likes s))"

definition relation_count :: "db \<Rightarrow> target_kind \<Rightarrow> nat \<Rightarrow> user_id \<Rightarrow> nat" where
  "relation_count s kind target_id user = count_list (like_relations s kind) (target_id, user)"

definition target_like_count :: "db \<Rightarrow> target_kind \<Rightarrow> nat \<Rightarrow> nat" where
  "target_like_count s kind target_id =
     length (filter (\<lambda>r. fst r = target_id) (like_relations s kind))"

text \<open>
  The toggle contract, written from its description: the policy constants, the ledger entry of
  a state change, and the operation that decides by the presence of the relation.
\<close>

definition policy_delta :: "target_kind \<Rightarrow> http_method \<Rightarrow> int" where
  "policy_delta kind method =
     (case (kind, method) of
        (PostTarget, POST) \<Rightarrow> 5
      | (PostTarget, DELETE) \<Rightarrow> - 5
      | (CommentTarget, POST) \<Rightarrow> 1
      | (CommentTarget, DELETE) \<Rightarrow> - 1)"

definition policy_event_type :: "target_kind \<Rightarrow> http_method \<Rightarrow> string" where
  "policy_event_type kind method =
     (case (kind, method) of
        (PostTarget, POST) \<Rightarrow> ''post_like''
      | (PostTarget, DELETE) \<Rightarrow> ''post_unlike''
      | (CommentTarget, POST) \<Rightarrow> ''comment_like''
      | (CommentTarget, DELETE) \<Rightarrow> ''comment_unlike'')"

definition toggle_event ::
    "target_kind \<Rightarrow> http_method \<Rightarrow> user_id \<Rightarrow> user_id \<Rightarrow> nat \<Rightarrow> time \<Rightarrow> KarmaEvent" where
  "toggle_event kind method author actor target_id now =
     \<lparr>ke_user = author, ke_actor = actor,
      ke_event_type = policy_event_type kind method,
      ke_delta = policy_delta kind method,
      ke_post = (if kind = PostTarget then Some target_id else None),
      ke_comment = (if kind = CommentTarget then Some target_id else None),
      ke_created_at = now\<rparr>"

definition insert_relation :: "db \<Rightarrow> target_kind \<Rightarrow> nat \<Rightarrow> user_id \<Rightarrow> time \<Rightarrow> db" where
  "insert_relation s kind target_id user now =
     (case kind of
        PostTarget \<Rightarrow>
          s\<lparr>post_likes := post_likes s @
              [\<lparr>pl_post = target_id, pl_user = user, pl_created_at = now\<rparr>]\<rparr>
      | CommentTarget \<Rightarrow>
          s\<lparr>comment_likes := comment_likes s @
              [\<lparr>cl_comment = target_id, cl_user = user, cl_created_at = now\<rparr>]\<rparr>)"

definition delete_relation :: "db \<Rightarrow> target_kind \<Rightarrow> nat \<Rightarrow> user_id \<Rightarrow> db" where
  "delete_relation s kind target_id user =
     (case kind of
        PostTarget \<Rightarrow>
          s\<lparr>post_likes :=
              filter (\<lambda>r. \<not> (pl_post r = target_id \<and> pl_user r = user)) (post_likes s)\<rparr>
      | CommentTarget \<Rightarrow>
          s\<lparr>comment_likes :=
              filter (\<lambda>r. \<not> (cl_comment r = target_id \<and> cl_user r = user)) (comment_likes s)\<rparr>)"

definition append_event :: "db \<Rightarrow> KarmaEvent \<Rightarrow> db" where
  "append_event s e = s\<lparr>karma_events := karma_events s @ [e]\<rparr>"

definition toggleLike_spec ::
    "db \<Rightarrow> target_kind \<Rightarrow> http_method \<Rightarrow> nat \<Rightarrow> user_id \<Rightarrow> time \<Rightarrow> error + (db \<times> like_response)" where
  "toggleLike_spec s kind method target_id user now =
     (case target_author s kind target_id of
        None \<Rightarrow> Inl Http404
      | Some author \<Rightarrow>
          (let exists = (relation_count s kind target_id user \<noteq> 0);
               s' = (if method = POST then
                       (if exists then s
                        else append_event (insert_relation s kind target_id user now)
                               (toggle_event kind POST author user target_id now))
                     else
                       (if exists then
                          append_event (delete_relation s kind target_id user)
                            (toggle_event kind DELETE author user target_id now)
                        else s))
           in Inr (s', \<lparr>liked = (method = POST),
                         like_count = target_like_count s' kind target_id\<rparr>)))"

section \<open>Sequences of toggle requests\<close>

text \<open>
  A request names the view, the method, the target id, the authenticated user and the time at
  which it is served.  A request that fails leaves the database as it was.
\<close>

datatype request = Request target_kind http_method nat user_id time

fun perform :: "db \<Rightarrow> request \<Rightarrow> db" where
  "perform s (Request kind method target_id user now) =
     (case toggleLike s kind method target_id user now of
        Inl e \<Rightarrow> s
      | Inr (s', r) \<Rightarrow> s')"

definition run_requests :: "db \<Rightarrow> request list \<Rightarrow> db" where
  "run_requests s reqs = foldl perform s reqs"

text \<open>
  The two integrity properties of a stored state: the unique constraints of the like tables
  and the check constraint of the ledger.
\<close>

definition likes_unique :: "db \<Rightarrow> bool" where
  "likes_unique s \<longleftrightarrow>
     distinct (like_relations s PostTarget) \<and> distinct (like_relations s CommentTarget)"

definition ledger_exclusive :: "db \<Rightarrow> bool" where
  "ledger_exclusive s \<longleftrightarrow> list_all karmaevent_exactly_one_target (karma_events s)"

section \<open>The leaderboard view (feed/views.py)\<close>

text \<open>\<^verbatim>\<open>timedelta(hours=h)\<close>, in microseconds.\<close>

definition timedelta_hours :: "int \<Rightarrow> time" where
  "timedelta_hours h = h * 3600 * 1000000"

text \<open>\<^verbatim>\<open>KarmaEvent.objects.filter(created_at__gte=since)\<close> with \<^verbatim>\<open>since = now - 24h\<close>.\<close>

definition window_events :: "db \<Rightarrow> time \<Rightarrow> KarmaEvent list" where
  "window_events s now =
     (let since = now - timedelta_hours 24
      in filter (\<lambda>e. since \<le> ke_created_at e) (karma_events s))"

text \<open>
  \<^verbatim>\<open>.values('user').annotate(karma=Coalesce(Sum('delta'), 0))\<close>: one row per user that has
  an event among the filtered ones, with the sum of that user's deltas.  SQL's SUM over no
  rows is NULL, which Coalesce replaces by 0.
\<close>

definition Sum_delta :: "KarmaEvent list \<Rightarrow> int option" where
  "Sum_delta evs = (if evs = [] then None else Some (sum_list (map ke_delta evs)))"

definition Coalesce :: "int option \<Rightarrow> int \<Rightarrow> int" where
  "Coalesce v d = (case v of None \<Rightarrow> d | Some x \<Rightarrow> x)"

definition grouped_karma :: "KarmaEvent list \<Rightarrow> (user_id \<times> int) list" where
  "grouped_karma evs =
     map (\<lambda>u. (u, Coalesce (Sum_delta (filter (\<lambda>e. ke_user e = u) evs)) 0))
       (remdups (map ke_user evs))"

text \<open>
  \<^verbatim>\<open>.order_by('-karma')\<close> names no second key, so the query fixes the order of the rows only
  up to rows of equal karma: the database may answer with any arrangement of the grouped rows
  that is descending by karma.  The arrangement it delivers is the argument \<open>ordered\<close> of the
  view; \<open>ordered_by_karma_desc\<close> says that it is one the query allows.
\<close>

definition ordered_by_karma_desc :: "(user_id \<times> int) list \<Rightarrow> (user_id \<times> int) list \<Rightarrow> bool" where
  "ordered_by_karma_desc groups ordered \<longleftrightarrow>
     mset ordered = mset groups \<and> sorted_wrt (\<lambda>a b. snd b \<le> snd a) ordered"

text \<open>
  The value of \<^verbatim>\<open>rows\<close>: the first five rows of the answer (\<^verbatim>\<open>[:5]\<close>); \<open>None\<close> when
  \<open>ordered\<close> is not an answer the query allows.
\<close>

definition leaderboard_rows ::
    "db \<Rightarrow> time \<Rightarrow> (user_id \<times> int) list \<Rightarrow> (user_id \<times> int) list option" where
  "leaderboard_rows s now ordered =
     (if ordered_by_karma_desc (grouped_karma (window_events s now)) ordered
      then Some (take 5 ordered) else None)"

text \<open>
  The loop over \<^verbatim>\<open>rows\<close>: \<^verbatim>\<open>User.objects.in_bulk\<close> maps ids to users, and a row whose
  user is not found is skipped.
\<close>

fun leaderboard_payload :: "User list \<Rightarrow> (user_id \<times> int) list \<Rightarrow> (User \<times> int) list" where
  "leaderboard_payload us [] = []"
| "leaderboard_payload us ((uid, karma) # rows) =
     (case find (\<lambda>u. u_id u = uid) us of
        None \<Rightarrow> leaderboard_payload us rows
      | Some u \<Rightarrow> (u, karma) # leaderboard_payload us rows)"

definition leaderboard ::
    "db \<Rightarrow> time \<Rightarrow> (user_id \<times> int) list \<Rightarrow> (User \<times> int) list option" where
  "leaderboard s now ordered =
     map_option (leaderboard_payload (users s)) (leaderboard_rows s now ordered)"

text \<open>
  The terms in which the leaderboard is described: the karma of a user over the trailing
  24 hours, the users that have an event in that window, and referential integrity of the
  ledger's beneficiary column.
\<close>

definition window_karma :: "db \<Rightarrow> time \<Rightarrow> user_id \<Rightarrow> int" where
  "window_karma s now u =
     sum_list (map ke_delta
       (filter (\<lambda>e. now - timedelta_hours 24 \<le> ke_created_at e \<and> ke_user e = u)
          (karma_events s)))"

definition window_users :: "db \<Rightarrow> time \<Rightarrow> user_id set" where
  "window_users s now =
     ke_user ` {e \<in> set (karma_events s). now - timedelta_hours 24 \<le> ke_created_at e}"

definition ledger_users_resolve :: "db \<Rightarrow> bool" where
  "ledger_users_resolve s \<longleftrightarrow>
     list_all (\<lambda>e. \<exists>u \<in> set (users s). u_id u = ke_user e) (karma_events s)"

section \<open>The comment tree (feed/views.py)\<close>

text \<open>
  A row of the queryset \<^verbatim>\<open>comments\<close> of \<^verbatim>\<open>build_comment_tree\<close>: a comment with its
  author's name (\<^verbatim>\<open>select_related('author')\<close>) and the two annotations.  The list of these
  rows, in the order the query delivers them, is written \<open>cs\<close> below.
\<close>

record AnnotatedComment = Comment +
  ac_author_username :: string
  ac_like_count :: nat
  ac_liked_by_me :: bool

text \<open>The dictionary \<^verbatim>\<open>_comment_to_dict\<close> returns.\<close>

datatype comment_dict =
  CommentDict (d_id: nat) (d_body: string) (d_author: "user_id \<times> string")
    (d_created_at: time) (d_like_count: nat) (d_liked_by_me: bool)
    (d_children: "comment_dict list")

text \<open>
  The dictionary \<^verbatim>\<open>by_parent\<close>, with \<^verbatim>\<open>by_parent.get(k, [])\<close> and
  \<^verbatim>\<open>by_parent.setdefault(k, []).append(c)\<close>.
\<close>

type_synonym by_parent_dict = "nat \<Rightarrow> AnnotatedComment list option"

definition dict_get :: "by_parent_dict \<Rightarrow> nat \<Rightarrow> AnnotatedComment list" where
  "dict_get by_parent k = (case by_parent k of None \<Rightarrow> [] | Some cs \<Rightarrow> cs)"

definition setdefault_append ::
    "by_parent_dict \<Rightarrow> nat \<Rightarrow> AnnotatedComment \<Rightarrow> by_parent_dict" where
  "setdefault_append by_parent k c =
     (case by_parent k of
        None \<Rightarrow> by_parent(k \<mapsto> [c])
      | Some cs \<Rightarrow> by_parent(k \<mapsto> cs @ [c]))"

text \<open>The loop over the rows, which fills \<^verbatim>\<open>by_parent\<close> and \<^verbatim>\<open>roots\<close>.\<close>

fun group_comments ::
    "AnnotatedComment list \<Rightarrow> by_parent_dict \<Rightarrow> AnnotatedComment list \<Rightarrow>
     by_parent_dict \<times> AnnotatedComment list" where
  "group_comments [] by_parent roots = (by_parent, roots)"
| "group_comments (c # cs) by_parent roots =
     (case c_parent_id c of
        None \<Rightarrow> group_comments cs by_parent (roots @ [c])
      | Some parent_id \<Rightarrow> group_comments cs (setdefault_append by_parent parent_id c) roots)"

text \<open>
  \<^verbatim>\<open>_comment_to_dict\<close> calls itself on every child, one nested call per reply level, and
  nothing in it bounds the depth.  The interpreter does: it allows a fixed number of nested
  calls (CPython's recursion limit, 1000 frames unless it is changed) and raises
  \<^verbatim>\<open>RecursionError\<close> beyond it.  The argument \<open>fuel\<close> is the number of nested calls of
  \<^verbatim>\<open>_comment_to_dict\<close> the interpreter still allows, and \<open>None\<close> stands for
  \<^verbatim>\<open>RecursionError\<close>.
\<close>

fun comment_to_dict :: "nat \<Rightarrow> by_parent_dict \<Rightarrow> AnnotatedComment \<Rightarrow> comment_dict option" where
  "comment_to_dict 0 by_parent c = None"
| "comment_to_dict (Suc fuel) by_parent c =
     (case those (map (comment_to_dict fuel by_parent) (dict_get by_parent (c_id c))) of
        None \<Rightarrow> None
      | Some children \<Rightarrow>
          Some (CommentDict (c_id c) (c_body c) (c_author c, ac_author_username c)
                  (c_created_at c) (ac_like_count c) (ac_liked_by_me c) children))"

declare comment_to_dict.simps [simp del]

text \<open>The part of \<^verbatim>\<open>build_comment_tree\<close> after the query.\<close>

definition build_comment_tree :: "nat \<Rightarrow> AnnotatedComment list \<Rightarrow> comment_dict list option" where
  "build_comment_tree fuel cs =
     (case group_comments cs Map.empty [] of
        (by_parent, roots) \<Rightarrow> those (map (comment_to_dict fuel by_parent) roots))"

text \<open>
  The terms in which a reply forest is described: the fields a dictionary copies from its
  comment, the direct replies to a comment id in input order, trees in which every node has
  exactly its direct replies as children, trees whose sibling lists are in order of creation,
  the nodes of a tree, and the comments whose chain of parents ends, within the list, at a
  comment with no parent.
\<close>

definition comment_fields ::
    "AnnotatedComment \<Rightarrow> nat \<times> string \<times> (user_id \<times> string) \<times> time \<times> nat \<times> bool" where
  "comment_fields c =
     (c_id c, c_body c, (c_author c, ac_author_username c), c_created_at c,
      ac_like_count c, ac_liked_by_me c)"

definition dict_fields ::
    "comment_dict \<Rightarrow> nat \<times> string \<times> (user_id \<times> string) \<times> time \<times> nat \<times> bool" where
  "dict_fields d =
     (d_id d, d_body d, d_author d, d_created_at d, d_like_count d, d_liked_by_me d)"

definition replies :: "AnnotatedComment list \<Rightarrow> nat \<Rightarrow> AnnotatedComment list" where
  "replies cs i = filter (\<lambda>c. c_parent_id c = Some i) cs"

fun tree_ok :: "AnnotatedComment list \<Rightarrow> comment_dict \<Rightarrow> bool" where
  "tree_ok cs (CommentDict i body author t lc lm children) \<longleftrightarrow>
     map dict_fields children = map comment_fields (replies cs i) \<and>
     (\<forall>child \<in> set children. tree_ok cs child)"

fun chronological :: "comment_dict \<Rightarrow> bool" where
  "chronological (CommentDict i body author t lc lm children) \<longleftrightarrow>
     sorted (map d_created_at children) \<and> (\<forall>child \<in> set children. chronological child)"

fun nodes :: "comment_dict \<Rightarrow> comment_dict list" where
  "nodes (CommentDict i body author t lc lm children) =
     CommentDict i body author t lc lm children # concat (map nodes children)"

fun chain_depth :: "AnnotatedComment list \<Rightarrow> nat \<Rightarrow> nat option \<Rightarrow> nat option" where
  "chain_depth cs fuel None = Some 0"
| "chain_depth cs 0 (Some p) = None"
| "chain_depth cs (Suc fuel) (Some p) =
     (case find (\<lambda>x. c_id x = p) cs of
        None \<Rightarrow> None
      | Some x \<Rightarrow> map_option Suc (chain_depth cs fuel (c_parent_id x)))"

definition rooted :: "AnnotatedComment list \<Rightarrow> AnnotatedComment \<Rightarrow> bool" where
  "rooted cs c \<longleftrightarrow> chain_depth cs (length cs) (c_parent_id c) \<noteq> None"

text \<open>
  The reply chains of a list nest no deeper than \<open>limit\<close> calls: every comment whose parent
  chain ends at a comment with no parent lies fewer than \<open>limit\<close> levels below it.
\<close>

definition reply_depth_within :: "nat \<Rightarrow> AnnotatedComment list \<Rightarrow> bool" where
  "reply_depth_within limit cs \<longleftrightarrow>
     list_all (\<lambda>c. case chain_depth cs (length cs) (c_parent_id c) of
                      None \<Rightarrow> True
                    | Some k \<Rightarrow> k < limit) cs"

section \<open>Example states\<close>

text \<open>
  One post by user 1, one comment on it by user 2; user 2 has liked the post, which
  credited user 1 with 5.
\<close>

definition liked_db :: db where
  "liked_db =
     \<lparr>users = [\<lparr>u_id = 1, u_username = ''ann''\<rparr>, \<lparr>u_id = 2, u_username = ''bob''\<rparr>],
      posts = [\<lparr>p_id = 1, p_author = 1, p_body = ''hello'', p_created_at = 0\<rparr>],
      comments = [\<lparr>c_id = 1, c_post = 1, c_author = 2, c_parent_id = None,
                   c_body = ''hi'', c_created_at = 5\<rparr>],
      post_likes = [\<lparr>pl_post = 1, pl_user = 2, pl_created_at = 10\<rparr>],
      comment_likes = [],
      karma_events = [\<lparr>ke_user = 1, ke_actor = 2, ke_event_type = ''post_like'',
                        ke_delta = 5, ke_post = Some 1, ke_comment = None,
                        ke_created_at = 10\<rparr>]\<rparr>"

text \<open>The state after user 1 likes comment 1 of \<open>liked_db\<close> at time 20.\<close>

definition comment_liked_db :: db where
  "comment_liked_db =
     liked_db\<lparr>comment_likes := [\<lparr>cl_comment = 1, cl_user = 1, cl_created_at = 20\<rparr>],
              karma_events := karma_events liked_db @
                [\<lparr>ke_user = 2, ke_actor = 1, ke_event_type = ''comment_like'',
                  ke_delta = 1, ke_post = None, ke_comment = Some 1,
                  ke_created_at = 20\<rparr>]\<rparr>"

text \<open>
  A ledger with events for eight users.  At time 30 h the window starts at 6 h: the event of
  user 8 lies before it, and users 1 to 7 have window karma 6, 1, 11, 1, 5, 1 and 6.
\<close>

definition board_user :: "user_id \<Rightarrow> User" where
  "board_user i = \<lparr>u_id = i, u_username = ''u''\<rparr>"

definition karma_event :: "user_id \<Rightarrow> int \<Rightarrow> time \<Rightarrow> KarmaEvent" where
  "karma_event u d t =
     \<lparr>ke_user = u, ke_actor = 9, ke_event_type = (if d = 5 then ''post_like'' else ''comment_like''),
      ke_delta = d, ke_post = (if d = 5 then Some 1 else None),
      ke_comment = (if d = 5 then None else Some 1), ke_created_at = t\<rparr>"

definition hour :: time where "hour = 3600000000"

definition board_db :: db where
  "board_db =
     \<lparr>users = map board_user [1, 2, 3, 4, 5, 6, 7, 8, 9],
      posts = [], comments = [], post_likes = [], comment_likes = [],
      karma_events =
        [karma_event 8 5 (5 * hour), karma_event 1 5 (6 * hour), karma_event 2 1 (7 * hour),
         karma_event 3 5 (8 * hour), karma_event 1 1 (29 * hour), karma_event 4 1 (10 * hour),
         karma_event 3 5 (11 * hour), karma_event 5 5 (12 * hour), karma_event 6 1 (13 * hour),
         karma_event 7 5 (14 * hour), karma_event 7 1 (15 * hour), karma_event 3 1 (16 * hour)]\<rparr>"

text \<open>
  Two comment lists: the thread A, B, C (reply to A), D (reply to C), and a list in which
  comment 2 replies to a comment that is not in the list and comment 3 replies to comment 2.
\<close>

definition thread_comment :: "nat \<Rightarrow> nat option \<Rightarrow> time \<Rightarrow> AnnotatedComment" where
  "thread_comment i parent t =
     \<lparr>c_id = i, c_post = 1, c_author = 1, c_parent_id = parent, c_body = ''text'',
      c_created_at = t, ac_author_username = ''ann'', ac_like_count = 0,
      ac_liked_by_me = False\<rparr>"

definition thread_dict :: "nat \<Rightarrow> time \<Rightarrow> comment_dict list \<Rightarrow> comment_dict" where
  "thread_dict i t children = CommentDict i ''text'' (1, ''ann'') t 0 False children"

definition example_thread :: "AnnotatedComment list" where
  "example_thread =
     [thread_comment 1 None 1, thread_comment 2 None 2, thread_comment 3 (Some 1) 3,
      thread_comment 4 (Some 3) 4]"

definition orphan_thread :: "AnnotatedComment list" where
  "orphan_thread =
     [thread_comment 1 None 1, thread_comment 2 (Some 9) 2, thread_comment 3 (Some 2) 3,
      thread_comment 4 (Some 1) 4]"

text \<open>
  A single thread of \<open>n\<close> comments in which every comment but the first replies to the one
  before it, and the state of \<open>liked_db\<close> after user 2 has unliked post 1 at time 30.
\<close>

definition chain_comment :: "nat \<Rightarrow> AnnotatedComment" where
  "chain_comment i = thread_comment (Suc i) (if i = 0 then None else Some i) (int i)"

definition reply_chain :: "nat \<Rightarrow> AnnotatedComment list" where
  "reply_chain n = map chain_comment [0..<n]"

definition unliked_db :: db where
  "unliked_db =
     liked_db\<lparr>post_likes := [],
              karma_events := karma_events liked_db @
                [\<lparr>ke_user = 1, ke_actor = 2, ke_event_type = ''post_unlike'',
                  ke_delta = - 5, ke_post = Some 1, ke_comment = None,
                  ke_created_at = 30\<rparr>]\<rparr>"

section \<open>The views implement the toggle contract\<close>

lemma find_p_id: "find (\<lambda>p. p_id p = i) ps = Some p \<Longrightarrow> p_id p = i"
  by (induction ps) (auto split: if_splits)

lemma find_c_id: "find (\<lambda>c. c_id c = i) cs = Some c \<Longrightarrow> c_id c = i"
  by (induction cs) (auto split: if_splits)

lemma filter_none: "\<not> (\<exists>r \<in> set xs. P r) \<Longrightarrow> filter (\<lambda>r. \<not> P r) xs = xs"
  by (induction xs) auto

lemma count_list_map_zero:
  "count_list (map f xs) k = 0 \<longleftrightarrow> \<not> (\<exists>r \<in> set xs. f r = k)"
  by (induction xs) auto

lemma length_filter_map_fst:
  "length (filter (\<lambda>r. fst r = t) (map (\<lambda>r. (f r, g r)) xs)) = length (filter (\<lambda>r. f r = t) xs)"
  by (induction xs) auto

lemmas toggle_defs =
  post_like_def comment_like_def get_post_or_404_def get_comment_or_404_def
  PostLike_create_def PostLike_delete_def CommentLike_create_def CommentLike_delete_def
  KarmaEvent_create_def karmaevent_exactly_one_target_def toggleLike_spec_def
  target_author_def target_like_count_def like_relations_def length_filter_map_fst o_def
  append_event_def insert_relation_def delete_relation_def toggle_event_def
  policy_delta_def policy_event_type_def

lemma post_like_refines:
  "post_like s m pid u now = toggleLike_spec s PostTarget m pid u now"
proof (cases "find (\<lambda>p. p_id p = pid) (posts s)")
  case None
  then show ?thesis
    by (simp add: post_like_def get_post_or_404_def toggleLike_spec_def target_author_def)
next
  case (Some post)
  note pid = find_p_id[OF Some]
  have cnt: "relation_count s PostTarget pid u \<noteq> 0 \<longleftrightarrow>
      (\<exists>r \<in> set (post_likes s). pl_post r = pid \<and> pl_user r = u)"
    using count_list_map_zero[of "\<lambda>r. (pl_post r, pl_user r)" "post_likes s" "(pid, u)"]
    by (simp add: relation_count_def like_relations_def)
  show ?thesis
  proof (cases "\<exists>r \<in> set (post_likes s). pl_post r = pid \<and> pl_user r = u")
    case True
    have z: "filter (\<lambda>r. pl_post r = pid \<and> pl_user r = u) (post_likes s) \<noteq> []"
      using True by (auto simp: filter_empty_conv)
    have rc: "relation_count s PostTarget pid u \<noteq> 0"
      using cnt True by simp
    show ?thesis
      by (cases m) (simp_all add: toggle_defs Some pid True rc z)
  next
    case False
    have f: "filter (\<lambda>r. \<not> (pl_post r = pid \<and> pl_user r = u)) (post_likes s) = post_likes s"
      using False by (rule filter_none)
    then have f': "filter (\<lambda>r. pl_post r = pid \<longrightarrow> pl_user r \<noteq> u) (post_likes s) = post_likes s"
      by simp
    have z: "filter (\<lambda>r. pl_post r = pid \<and> pl_user r = u) (post_likes s) = []"
      using False by (auto simp: filter_empty_conv)
    have rc: "relation_count s PostTarget pid u = 0"
      using cnt False by simp
    show ?thesis
      by (cases m) (simp_all add: toggle_defs Some pid False rc f' z)
  qed
qed

lemma comment_like_refines:
  "comment_like s m cid u now = toggleLike_spec s CommentTarget m cid u now"
proof (cases "find (\<lambda>c. c_id c = cid) (comments s)")
  case None
  then show ?thesis
    by (simp add: comment_like_def get_comment_or_404_def toggleLike_spec_def target_author_def)
next
  case (Some comment)
  note cid = find_c_id[OF Some]
  have cnt: "relation_count s CommentTarget cid u \<noteq> 0 \<longleftrightarrow>
      (\<exists>r \<in> set (comment_likes s). cl_comment r = cid \<and> cl_user r = u)"
    using count_list_map_zero[of "\<lambda>r. (cl_comment r, cl_user r)" "comment_likes s" "(cid, u)"]
    by (simp add: relation_count_def like_relations_def)
  show ?thesis
  proof (cases "\<exists>r \<in> set (comment_likes s). cl_comment r = cid \<and> cl_user r = u")
    case True
    have z: "filter (\<lambda>r. cl_comment r = cid \<and> cl_user r = u) (comment_likes s) \<noteq> []"
      using True by (auto simp: filter_empty_conv)
    have rc: "relation_count s CommentTarget cid u \<noteq> 0"
      using cnt True by simp
    show ?thesis
      by (cases m) (simp_all add: toggle_defs Some cid True rc z)
  next
    case False
    have f: "filter (\<lambda>r. \<not> (cl_comment r = cid \<and> cl_user r = u)) (comment_likes s) =
        comment_likes s"
      using False by (rule filter_none)
    then have f': "filter (\<lambda>r. cl_comment r = cid \<longrightarrow> cl_user r \<noteq> u) (comment_likes s) =
        comment_likes s"
      by simp
    have z: "filter (\<lambda>r. cl_comment r = cid \<and> cl_user r = u) (comment_likes s) = []"
      using False by (auto simp: filter_empty_conv)
    have rc: "relation_count s CommentTarget cid u = 0"
      using cnt False by simp
    show ?thesis
      by (cases m) (simp_all add: toggle_defs Some cid False rc f' z)
  qed
qed

lemma toggleLike_refines:
  "toggleLike s kind m tid u now = toggleLike_spec s kind m tid u now"
  by (cases kind) (simp_all add: toggleLike_def post_like_refines comment_like_refines)

section \<open>Properties of the toggle operation\<close>

lemma target_author_append_event [simp]:
  "target_author (append_event s e) kind tid = target_author s kind tid"
  by (simp add: target_author_def append_event_def split: target_kind.splits)

lemma target_author_insert_relation [simp]:
  "target_author (insert_relation s k t u now) kind tid = target_author s kind tid"
  by (simp add: target_author_def insert_relation_def split: target_kind.splits)

lemma target_author_delete_relation [simp]:
  "target_author (delete_relation s k t u) kind tid = target_author s kind tid"
  by (simp add: target_author_def delete_relation_def split: target_kind.splits)

lemma like_relations_append_event [simp]:
  "like_relations (append_event s e) kind = like_relations s kind"
  by (simp add: like_relations_def append_event_def split: target_kind.splits)

lemma like_relations_insert_relation:
  "like_relations (insert_relation s k t u now) kind =
     (if kind = k then like_relations s kind @ [(t, u)] else like_relations s kind)"
  by (simp add: like_relations_def insert_relation_def split: target_kind.splits)

lemma like_relations_delete_relation:
  "like_relations (delete_relation s k t u) kind =
     (if kind = k then filter (\<lambda>r. r \<noteq> (t, u)) (like_relations s kind)
      else like_relations s kind)"
  by (auto simp: like_relations_def delete_relation_def filter_map o_def
      split: target_kind.splits intro!: arg_cong2[where f=map] filter_cong)

lemma karma_events_append_event [simp]:
  "karma_events (append_event s e) = karma_events s @ [e]"
  by (simp add: append_event_def)

lemma karma_events_insert_relation [simp]:
  "karma_events (insert_relation s k t u now) = karma_events s"
  by (simp add: insert_relation_def split: target_kind.splits)

lemma karma_events_delete_relation [simp]:
  "karma_events (delete_relation s k t u) = karma_events s"
  by (simp add: delete_relation_def split: target_kind.splits)

lemma count_list_filter_neq [simp]: "count_list (filter (\<lambda>r. r \<noteq> k) xs) k = 0"
  by (induction xs) auto

lemma filter_neq_id: "count_list xs k = 0 \<Longrightarrow> filter (\<lambda>r. r \<noteq> k) xs = xs"
  by (induction xs) (auto split: if_splits)

lemma length_filter_fst_neq:
  "length (filter (\<lambda>r. fst r = t) (filter (\<lambda>r. r \<noteq> (t, u)) xs)) + count_list xs (t, u) =
     length (filter (\<lambda>r. fst r = t) xs)"
  by (induction xs) auto

lemma delete_insert_relation:
  assumes "relation_count s kind t u = 0"
  shows "delete_relation (insert_relation s kind t u now) kind t u = s"
proof (cases kind)
  case PostTarget
  have "\<not> (\<exists>r \<in> set (post_likes s). pl_post r = t \<and> pl_user r = u)"
    using assms count_list_map_zero[of "\<lambda>r. (pl_post r, pl_user r)" "post_likes s" "(t, u)"]
    by (simp add: relation_count_def like_relations_def PostTarget)
  then have "filter (\<lambda>r. \<not> (pl_post r = t \<and> pl_user r = u)) (post_likes s) = post_likes s"
    by (rule filter_none)
  then show ?thesis
    by (simp add: PostTarget delete_relation_def insert_relation_def)
next
  case CommentTarget
  have "\<not> (\<exists>r \<in> set (comment_likes s). cl_comment r = t \<and> cl_user r = u)"
    using assms
      count_list_map_zero[of "\<lambda>r. (cl_comment r, cl_user r)" "comment_likes s" "(t, u)"]
    by (simp add: relation_count_def like_relations_def CommentTarget)
  then have "filter (\<lambda>r. \<not> (cl_comment r = t \<and> cl_user r = u)) (comment_likes s) =
      comment_likes s"
    by (rule filter_none)
  then show ?thesis
    by (simp add: CommentTarget delete_relation_def insert_relation_def)
qed

lemma delete_relation_append_event:
  "delete_relation (append_event s e) kind t u = append_event (delete_relation s kind t u) e"
  by (simp add: delete_relation_def append_event_def split: target_kind.splits)

lemma relation_count_insert [simp]:
  "relation_count (insert_relation s kind t u now) kind t u = Suc (relation_count s kind t u)"
  by (simp add: relation_count_def like_relations_insert_relation)

lemma relation_count_delete [simp]:
  "relation_count (delete_relation s kind t u) kind t u = 0"
  by (simp add: relation_count_def like_relations_delete_relation)

lemma relation_count_append_event [simp]:
  "relation_count (append_event s e) kind t u = relation_count s kind t u"
  by (simp add: relation_count_def)

lemma target_like_count_append_event [simp]:
  "target_like_count (append_event s e) kind t = target_like_count s kind t"
  by (simp add: target_like_count_def)

lemma target_like_count_insert [simp]:
  "target_like_count (insert_relation s kind t u now) kind t = Suc (target_like_count s kind t)"
  by (simp add: target_like_count_def like_relations_insert_relation)

lemma target_like_count_delete:
  "target_like_count (delete_relation s kind t u) kind t + relation_count s kind t u =
     target_like_count s kind t"
  using length_filter_fst_neq[of t u "like_relations s kind"]
  by (simp add: target_like_count_def relation_count_def like_relations_delete_relation)

lemma toggleLike_spec_ledger:
  assumes "toggleLike_spec s kind m tid u now = Inr (s', r)"
  shows "\<exists>a. target_author s kind tid = Some a \<and>
           (karma_events s' = karma_events s \<or>
            karma_events s' = karma_events s @ [toggle_event kind m a u tid now])"
  using assms
  by (cases m) (auto simp: toggleLike_spec_def Let_def split: option.splits if_splits)

lemma comment_like_on_liked_db:
  "toggleLike liked_db CommentTarget POST 1 1 20 =
     Inr (comment_liked_db, \<lparr>liked = True, like_count = 1\<rparr>)"
  by (simp add: toggleLike_def comment_like_def get_comment_or_404_def CommentLike_create_def
      KarmaEvent_create_def karmaevent_exactly_one_target_def liked_db_def comment_liked_db_def)

lemma post_like_dup_on_liked_db:
  "toggleLike liked_db PostTarget POST 1 2 20 = Inr (liked_db, \<lparr>liked = True, like_count = 1\<rparr>)"
  by (simp add: toggleLike_def post_like_def get_post_or_404_def PostLike_create_def liked_db_def)

lemma post_unlike_on_liked_db:
  "toggleLike liked_db PostTarget DELETE 1 2 30 =
     Inr (unliked_db, \<lparr>liked = False, like_count = 0\<rparr>)"
  by (simp add: toggleLike_def post_like_def get_post_or_404_def PostLike_delete_def
      KarmaEvent_create_def karmaevent_exactly_one_target_def liked_db_def unliked_db_def)

lemma comment_unlike_on_liked_db:
  "toggleLike liked_db CommentTarget DELETE 1 1 30 =
     Inr (liked_db, \<lparr>liked = False, like_count = 0\<rparr>)"
  by (simp add: toggleLike_def comment_like_def get_comment_or_404_def CommentLike_delete_def
      liked_db_def)

lemma perform_ledger:
  "\<exists>es. karma_events (perform s req) = karma_events s @ es \<and>
        list_all karmaevent_exactly_one_target es"
proof (cases req)
  case (Request kind m tid u now)
  show ?thesis
  proof (cases "toggleLike s kind m tid u now")
    case (Inl e)
    then show ?thesis by (simp add: Request)
  next
    case (Inr p)
    obtain s' r where p: "p = (s', r)" by (cases p)
    from Inr p obtain a where
      "karma_events s' = karma_events s \<or>
       karma_events s' = karma_events s @ [toggle_event kind m a u tid now]"
      using toggleLike_spec_ledger[of s kind m tid u now s' r] by (auto simp: toggleLike_refines)
    then show ?thesis
    proof
      assume "karma_events s' = karma_events s"
      then show ?thesis by (simp add: Request Inr p)
    next
      assume "karma_events s' = karma_events s @ [toggle_event kind m a u tid now]"
      moreover have "karmaevent_exactly_one_target (toggle_event kind m a u tid now)"
        by (cases kind) (simp_all add: karmaevent_exactly_one_target_def toggle_event_def)
      ultimately show ?thesis by (simp add: Request Inr p)
    qed
  qed
qed

lemma run_requests_ledger:
  "\<exists>es. karma_events (run_requests s reqs) = karma_events s @ es \<and>
        list_all karmaevent_exactly_one_target es"
proof (induction reqs arbitrary: s)
  case Nil
  show ?case by (simp add: run_requests_def)
next
  case (Cons req reqs)
  obtain es1 where 1: "karma_events (perform s req) = karma_events s @ es1"
    and ok1: "list_all karmaevent_exactly_one_target es1"
    using perform_ledger[of s req] by auto
  obtain es2 where 2: "karma_events (run_requests (perform s req) reqs) =
      karma_events (perform s req) @ es2"
    and ok2: "list_all karmaevent_exactly_one_target es2"
    using Cons.IH[of "perform s req"] by auto
  have "karma_events (run_requests s (req # reqs)) = karma_events s @ (es1 @ es2)"
    using 1 2 by (simp add: run_requests_def)
  moreover have "list_all karmaevent_exactly_one_target (es1 @ es2)"
    using ok1 ok2 by simp
  ultimately show ?case by blast
qed

lemma length_filter_fst_card:
  assumes "distinct xs"
  shows "length (filter (\<lambda>r. fst r = t) xs) = card {v. (t, v) \<in> set xs}"
proof -
  have "length (filter (\<lambda>r. fst r = t) xs) = card (set (filter (\<lambda>r. fst r = t) xs))"
    using distinct_card[of "filter (\<lambda>r. fst r = t) xs"] assms by (simp del: set_filter)
  also have "set (filter (\<lambda>r. fst r = t) xs) = Pair t ` {v. (t, v) \<in> set xs}"
    by force
  also have "card (Pair t ` {v. (t, v) \<in> set xs}) = card {v. (t, v) \<in> set xs}"
    by (rule card_image) (simp add: inj_on_def)
  finally show ?thesis .
qed

lemma likes_unique_insert:
  assumes "likes_unique s" and "relation_count s kind t u = 0"
  shows "likes_unique (insert_relation s kind t u now)"
  using assms
  by (cases kind)
    (auto simp: likes_unique_def like_relations_insert_relation relation_count_def
      count_list_0_iff)

lemma likes_unique_delete:
  assumes "likes_unique s"
  shows "likes_unique (delete_relation s kind t u)"
  using assms
  by (cases kind) (auto simp: likes_unique_def like_relations_delete_relation)

lemma likes_unique_append_event [simp]:
  "likes_unique (append_event s e) = likes_unique s"
  by (simp add: likes_unique_def)

lemma toggleLike_spec_unique:
  assumes "toggleLike_spec s kind m tid u now = Inr (s', r)" and "likes_unique s"
  shows "likes_unique s'"
  using assms
  by (cases m)
    (auto simp: toggleLike_spec_def Let_def likes_unique_insert likes_unique_delete
      split: option.splits if_splits)

lemma toggleLike_spec_count:
  assumes "toggleLike_spec s kind m tid u now = Inr (s', r)"
  shows "like_count r = target_like_count s' kind tid"
  using assms
  by (auto simp: toggleLike_spec_def Let_def split: option.splits)

text \<open>
  Claim C1.  A like request on an existing target by a user whose like relation is already
  stored answers \<open>liked = True\<close> and returns the state unchanged, so nothing is appended to
  the ledger.  Starting without the relation, two like requests in a row leave exactly one
  relation for the pair and append exactly one event, whose delta is positive.
\<close>

theorem duplicate_like_is_idempotent:
  assumes "target_author s kind tid = Some a"
  shows "(relation_count s kind tid u \<noteq> 0 \<longrightarrow>
            toggleLike s kind POST tid u now =
              Inr (s, \<lparr>liked = True, like_count = target_like_count s kind tid\<rparr>)) \<and>
         (relation_count s kind tid u = 0 \<longrightarrow>
            (\<exists>s1 e. toggleLike s kind POST tid u now =
                 Inr (s1, \<lparr>liked = True, like_count = Suc (target_like_count s kind tid)\<rparr>) \<and>
               toggleLike s1 kind POST tid u now' =
                 Inr (s1, \<lparr>liked = True, like_count = Suc (target_like_count s kind tid)\<rparr>) \<and>
               relation_count s1 kind tid u = 1 \<and>
               karma_events s1 = karma_events s @ [e] \<and> 0 < ke_delta e))"
proof (intro conjI impI)
  assume "relation_count s kind tid u \<noteq> 0"
  then show "toggleLike s kind POST tid u now =
      Inr (s, \<lparr>liked = True, like_count = target_like_count s kind tid\<rparr>)"
    using assms by (simp add: toggleLike_refines toggleLike_spec_def)
next
  assume none: "relation_count s kind tid u = 0"
  let ?e = "toggle_event kind POST a u tid now"
  let ?s1 = "append_event (insert_relation s kind tid u now) ?e"
  have first: "toggleLike s kind POST tid u now =
      Inr (?s1, \<lparr>liked = True, like_count = Suc (target_like_count s kind tid)\<rparr>)"
    using assms none by (simp add: toggleLike_refines toggleLike_spec_def)
  have second: "toggleLike ?s1 kind POST tid u now' =
      Inr (?s1, \<lparr>liked = True, like_count = Suc (target_like_count s kind tid)\<rparr>)"
    using assms none by (simp add: toggleLike_refines toggleLike_spec_def)
  have one: "relation_count ?s1 kind tid u = 1"
    using none by simp
  have pos: "0 < ke_delta ?e"
    by (cases kind) (simp_all add: toggle_event_def policy_delta_def)
  show "\<exists>s1 e. toggleLike s kind POST tid u now =
                 Inr (s1, \<lparr>liked = True, like_count = Suc (target_like_count s kind tid)\<rparr>) \<and>
               toggleLike s1 kind POST tid u now' =
                 Inr (s1, \<lparr>liked = True, like_count = Suc (target_like_count s kind tid)\<rparr>) \<and>
               relation_count s1 kind tid u = 1 \<and>
               karma_events s1 = karma_events s @ [e] \<and> 0 < ke_delta e"
    using first second one pos by (intro exI[of _ ?s1] exI[of _ ?e]) simp
qed

theorem duplicate_like_is_idempotent_witness:
  "toggleLike liked_db PostTarget POST 1 2 20 =
     Inr (liked_db, \<lparr>liked = True, like_count = 1\<rparr>) \<and>
   (\<exists>s1 e. toggleLike liked_db CommentTarget POST 1 1 20 =
        Inr (s1, \<lparr>liked = True, like_count = 1\<rparr>) \<and>
      toggleLike s1 CommentTarget POST 1 1 21 = Inr (s1, \<lparr>liked = True, like_count = 1\<rparr>) \<and>
      relation_count s1 CommentTarget 1 1 = 1 \<and>
      karma_events s1 = karma_events liked_db @ [e] \<and> 0 < ke_delta e)"
  using duplicate_like_is_idempotent
          [where s = liked_db and kind = PostTarget and tid = 1 and a = 1 and u = 2 and now = 20]
        duplicate_like_is_idempotent
          [where s = liked_db and kind = CommentTarget and tid = 1 and a = 2 and u = 1
             and now = 20 and now' = 21]
  by (simp add: target_author_def relation_count_def like_relations_def target_like_count_def
      liked_db_def)

text \<open>
  Claim C2.  An unlike request on an existing target: when a relation for the pair is stored
  it is removed and exactly one event with the negative delta of the target kind is appended;
  when none is stored the answer is \<open>liked = False\<close> and the state, ledger included, is
  unchanged.
\<close>

theorem unlike_removes_relation_or_is_noop:
  assumes "target_author s kind tid = Some a"
  shows "(relation_count s kind tid u \<noteq> 0 \<longrightarrow>
            (\<exists>s' e. toggleLike s kind DELETE tid u now =
                 Inr (s', \<lparr>liked = False, like_count = target_like_count s' kind tid\<rparr>) \<and>
               relation_count s' kind tid u = 0 \<and>
               karma_events s' = karma_events s @ [e] \<and>
               ke_delta e = (case kind of PostTarget \<Rightarrow> - 5 | CommentTarget \<Rightarrow> - 1))) \<and>
         (relation_count s kind tid u = 0 \<longrightarrow>
            toggleLike s kind DELETE tid u now =
              Inr (s, \<lparr>liked = False, like_count = target_like_count s kind tid\<rparr>))"
proof (intro conjI impI)
  assume some: "relation_count s kind tid u \<noteq> 0"
  let ?e = "toggle_event kind DELETE a u tid now"
  let ?s' = "append_event (delete_relation s kind tid u) ?e"
  have call: "toggleLike s kind DELETE tid u now =
      Inr (?s', \<lparr>liked = False, like_count = target_like_count ?s' kind tid\<rparr>)"
    using assms some by (simp add: toggleLike_refines toggleLike_spec_def)
  have delta: "ke_delta ?e = (case kind of PostTarget \<Rightarrow> - 5 | CommentTarget \<Rightarrow> - 1)"
    by (cases kind) (simp_all add: toggle_event_def policy_delta_def)
  show "\<exists>s' e. toggleLike s kind DELETE tid u now =
                 Inr (s', \<lparr>liked = False, like_count = target_like_count s' kind tid\<rparr>) \<and>
               relation_count s' kind tid u = 0 \<and>
               karma_events s' = karma_events s @ [e] \<and>
               ke_delta e = (case kind of PostTarget \<Rightarrow> - 5 | CommentTarget \<Rightarrow> - 1)"
    using call delta by (intro exI[of _ ?s'] exI[of _ ?e]) simp
next
  assume "relation_count s kind tid u = 0"
  then show "toggleLike s kind DELETE tid u now =
      Inr (s, \<lparr>liked = False, like_count = target_like_count s kind tid\<rparr>)"
    using assms by (simp add: toggleLike_refines toggleLike_spec_def)
qed

theorem unlike_removes_relation_or_is_noop_witness:
  "(\<exists>s' e. toggleLike liked_db PostTarget DELETE 1 2 30 =
        Inr (s', \<lparr>liked = False, like_count = target_like_count s' PostTarget 1\<rparr>) \<and>
      relation_count s' PostTarget 1 2 = 0 \<and>
      karma_events s' = karma_events liked_db @ [e] \<and> ke_delta e = - 5) \<and>
   toggleLike liked_db CommentTarget DELETE 1 1 30 =
     Inr (liked_db, \<lparr>liked = False, like_count = 0\<rparr>)"
  using unlike_removes_relation_or_is_noop
          [where s = liked_db and kind = PostTarget and tid = 1 and a = 1 and u = 2 and now = 30]
        unlike_removes_relation_or_is_noop
          [where s = liked_db and kind = CommentTarget and tid = 1 and a = 2 and u = 1
             and now = 30]
  by (simp add: target_author_def relation_count_def like_relations_def target_like_count_def
      liked_db_def)

text \<open>
  Claim C3.  A toggle appends at most one event; its beneficiary is the author of the target,
  its actor the requesting user, and its delta and event type are the policy constants of the
  target kind and request: +5 and -5 for liking and unliking a post, +1 and -1 for a comment.
\<close>

theorem toggle_event_follows_policy:
  assumes "toggleLike s kind m tid u now = Inr (s', r)"
  shows "\<exists>a es. target_author s kind tid = Some a \<and>
           karma_events s' = karma_events s @ es \<and> length es \<le> 1 \<and>
           list_all (\<lambda>e. ke_user e = a \<and> ke_actor e = u \<and>
                          ke_delta e = policy_delta kind m \<and>
                          ke_event_type e = policy_event_type kind m \<and>
                          ke_created_at e = now) es"
proof -
  from assms obtain a where a: "target_author s kind tid = Some a"
    and two: "karma_events s' = karma_events s \<or>
                karma_events s' = karma_events s @ [toggle_event kind m a u tid now]"
    using toggleLike_spec_ledger[of s kind m tid u now s' r] by (auto simp: toggleLike_refines)
  from two show ?thesis
  proof
    assume "karma_events s' = karma_events s"
    then show ?thesis using a by (intro exI[of _ a] exI[of _ "[]"]) simp
  next
    assume "karma_events s' = karma_events s @ [toggle_event kind m a u tid now]"
    then show ?thesis using a
      by (intro exI[of _ a] exI[of _ "[toggle_event kind m a u tid now]"])
        (simp add: toggle_event_def)
  qed
qed

theorem toggle_event_follows_policy_witness:
  "\<exists>a es. target_author liked_db CommentTarget 1 = Some a \<and>
      karma_events comment_liked_db = karma_events liked_db @ es \<and>
      length es \<le> 1 \<and>
      list_all (\<lambda>e. ke_user e = a \<and> ke_actor e = 1 \<and> ke_delta e = 1 \<and>
                     ke_event_type e = ''comment_like'' \<and> ke_created_at e = 20) es"
  using toggle_event_follows_policy[OF comment_like_on_liked_db]
  by (simp add: policy_delta_def policy_event_type_def)

text \<open>
  Claim C7, amended.  From a state in which the user has no like relation on the target, a
  like followed by an unlike of the same pair restores the like count of the target, and the
  deltas of the events the two requests append sum to zero.
\<close>

theorem like_then_unlike_round_trip:
  assumes "target_author s kind tid = Some a" and "relation_count s kind tid u = 0"
  shows "\<exists>s1 s2 es.
           toggleLike s kind POST tid u now =
             Inr (s1, \<lparr>liked = True, like_count = Suc (target_like_count s kind tid)\<rparr>) \<and>
           toggleLike s1 kind DELETE tid u now' =
             Inr (s2, \<lparr>liked = False, like_count = target_like_count s kind tid\<rparr>) \<and>
           target_like_count s2 kind tid = target_like_count s kind tid \<and>
           karma_events s2 = karma_events s @ es \<and> sum_list (map ke_delta es) = 0"
proof -
  let ?e1 = "toggle_event kind POST a u tid now"
  let ?e2 = "toggle_event kind DELETE a u tid now'"
  let ?s1 = "append_event (insert_relation s kind tid u now) ?e1"
  let ?s2 = "append_event (append_event s ?e1) ?e2"
  have first: "toggleLike s kind POST tid u now =
      Inr (?s1, \<lparr>liked = True, like_count = Suc (target_like_count s kind tid)\<rparr>)"
    using assms by (simp add: toggleLike_refines toggleLike_spec_def)
  have undo: "delete_relation ?s1 kind tid u = append_event s ?e1"
    using assms(2) by (simp add: delete_relation_append_event delete_insert_relation)
  have second: "toggleLike ?s1 kind DELETE tid u now' =
      Inr (?s2, \<lparr>liked = False, like_count = target_like_count s kind tid\<rparr>)"
    using assms by (simp add: toggleLike_refines toggleLike_spec_def undo)
  have zero: "sum_list (map ke_delta [?e1, ?e2]) = 0"
    by (cases kind) (simp_all add: toggle_event_def policy_delta_def)
  show ?thesis
    using first second zero by (intro exI[of _ ?s1] exI[of _ ?s2] exI[of _ "[?e1, ?e2]"]) simp
qed

theorem like_then_unlike_round_trip_witness:
  "\<exists>s1 s2 es.
     toggleLike liked_db CommentTarget POST 1 1 20 =
       Inr (s1, \<lparr>liked = True, like_count = 1\<rparr>) \<and>
     toggleLike s1 CommentTarget DELETE 1 1 30 = Inr (s2, \<lparr>liked = False, like_count = 0\<rparr>) \<and>
     target_like_count s2 CommentTarget 1 = 0 \<and>
     karma_events s2 = karma_events liked_db @ es \<and> sum_list (map ke_delta es) = 0"
  using like_then_unlike_round_trip
          [where s = liked_db and kind = CommentTarget and tid = 1 and a = 2 and u = 1
             and now = 20 and now' = 30]
  by (simp add: target_author_def relation_count_def like_relations_def target_like_count_def
      liked_db_def)

text \<open>
  Claim C7 as stated fails when the relation is already stored: in \<open>liked_db\<close> user 2 likes
  post 1, the like request changes nothing, and the unlike request takes the count from 1 to
  0 and appends the single delta -5.
\<close>

theorem like_then_unlike_when_already_liked:
  "target_like_count liked_db PostTarget 1 = 1 \<and>
   toggleLike liked_db PostTarget POST 1 2 20 =
     Inr (liked_db, \<lparr>liked = True, like_count = 1\<rparr>) \<and>
   toggleLike liked_db PostTarget DELETE 1 2 30 =
     Inr (liked_db\<lparr>post_likes := [],
                   karma_events := karma_events liked_db @
                     [\<lparr>ke_user = 1, ke_actor = 2, ke_event_type = ''post_unlike'',
                       ke_delta = - 5, ke_post = Some 1, ke_comment = None,
                       ke_created_at = 30\<rparr>]\<rparr>,
          \<lparr>liked = False, like_count = 0\<rparr>)"
  by (simp add: toggleLike_def post_like_def get_post_or_404_def PostLike_create_def
      PostLike_delete_def KarmaEvent_create_def karmaevent_exactly_one_target_def
      target_like_count_def like_relations_def liked_db_def)

text \<open>
  Claim C8.  Every event appended by a sequence of toggle requests has exactly one of its post
  and comment references set, so a ledger that satisfies the exclusivity constraint
  satisfies it after any such sequence.
\<close>

theorem ledger_exclusivity_invariant:
  "(\<exists>es. karma_events (run_requests s reqs) = karma_events s @ es \<and>
         list_all karmaevent_exactly_one_target es) \<and>
   (ledger_exclusive s \<longrightarrow> ledger_exclusive (run_requests s reqs))"
proof -
  obtain es where "karma_events (run_requests s reqs) = karma_events s @ es"
    and "list_all karmaevent_exactly_one_target es"
    using run_requests_ledger[of s reqs] by auto
  then show ?thesis by (auto simp: ledger_exclusive_def)
qed

theorem ledger_exclusivity_invariant_witness:
  "ledger_exclusive liked_db \<and>
   ledger_exclusive
     (run_requests liked_db
        [Request CommentTarget POST 1 1 20, Request PostTarget DELETE 1 2 30,
         Request PostTarget DELETE 1 2 31, Request PostTarget POST 9 2 32]) \<and>
   length (karma_events
     (run_requests liked_db
        [Request CommentTarget POST 1 1 20, Request PostTarget DELETE 1 2 30,
         Request PostTarget DELETE 1 2 31, Request PostTarget POST 9 2 32])) = 3"
proof -
  have ok: "ledger_exclusive liked_db"
    by (simp add: ledger_exclusive_def liked_db_def karmaevent_exactly_one_target_def)
  have len: "length (karma_events
     (run_requests liked_db
        [Request CommentTarget POST 1 1 20, Request PostTarget DELETE 1 2 30,
         Request PostTarget DELETE 1 2 31, Request PostTarget POST 9 2 32])) = 3"
    by (simp add: run_requests_def toggleLike_def post_like_def comment_like_def
        get_post_or_404_def get_comment_or_404_def PostLike_create_def PostLike_delete_def
        CommentLike_create_def KarmaEvent_create_def karmaevent_exactly_one_target_def
        liked_db_def)
  show ?thesis
    using ok len
      ledger_exclusivity_invariant
        [of liked_db "[Request CommentTarget POST 1 1 20, Request PostTarget DELETE 1 2 30,
           Request PostTarget DELETE 1 2 31, Request PostTarget POST 9 2 32]"]
    by simp
qed

text \<open>
  Claim C9.  Every toggle on an existing target returns a like count, and that count is the
  number of like relations stored for the target in the state the toggle leaves; when the
  unique constraints hold it is the number of users who like the target.
\<close>

theorem like_count_counts_relations:
  assumes "target_author s kind tid = Some a"
  shows "\<exists>s' r. toggleLike s kind m tid u now = Inr (s', r) \<and>
           like_count r = length (filter (\<lambda>rel. fst rel = tid) (like_relations s' kind)) \<and>
           (likes_unique s \<longrightarrow>
              likes_unique s' \<and>
              like_count r = card {v. (tid, v) \<in> set (like_relations s' kind)})"
proof -
  obtain s' r where spec: "toggleLike_spec s kind m tid u now = Inr (s', r)"
    using assms by (simp add: toggleLike_spec_def Let_def)
  have run: "toggleLike s kind m tid u now = Inr (s', r)"
    using spec by (simp add: toggleLike_refines)
  have count: "like_count r = length (filter (\<lambda>rel. fst rel = tid) (like_relations s' kind))"
    using toggleLike_spec_count[OF spec] by (simp add: target_like_count_def)
  have "likes_unique s' \<and> like_count r = card {v. (tid, v) \<in> set (like_relations s' kind)}"
    if "likes_unique s"
  proof -
    have u: "likes_unique s'" using toggleLike_spec_unique[OF spec that] .
    then have "distinct (like_relations s' kind)"
      by (cases kind) (simp_all add: likes_unique_def)
    then show ?thesis using u count by (simp add: length_filter_fst_card)
  qed
  then show ?thesis using run count by blast
qed

theorem like_count_counts_relations_witness:
  "likes_unique liked_db \<and>
   toggleLike liked_db PostTarget POST 1 2 20 =
     Inr (liked_db, \<lparr>liked = True, like_count = 1\<rparr>) \<and>
   card {v. (1, v) \<in> set (like_relations liked_db PostTarget)} = 1 \<and>
   toggleLike liked_db PostTarget DELETE 1 2 30 =
     Inr (unliked_db, \<lparr>liked = False, like_count = 0\<rparr>) \<and>
   likes_unique unliked_db \<and>
   card {v. (1, v) \<in> set (like_relations unliked_db PostTarget)} = 0 \<and>
   toggleLike liked_db CommentTarget POST 1 1 20 =
     Inr (comment_liked_db, \<lparr>liked = True, like_count = 1\<rparr>) \<and>
   likes_unique comment_liked_db \<and>
   card {v. (1, v) \<in> set (like_relations comment_liked_db CommentTarget)} = 1 \<and>
   toggleLike liked_db CommentTarget DELETE 1 1 30 =
     Inr (liked_db, \<lparr>liked = False, like_count = 0\<rparr>) \<and>
   card {v. (1, v) \<in> set (like_relations liked_db CommentTarget)} = 0"
proof -
  have ok: "likes_unique liked_db"
    by (simp add: likes_unique_def like_relations_def liked_db_def)
  have post: "target_author liked_db PostTarget 1 = Some 1"
    by (simp add: target_author_def liked_db_def)
  have comment: "target_author liked_db CommentTarget 1 = Some 2"
    by (simp add: target_author_def liked_db_def)
  have 1: "card {v. (1, v) \<in> set (like_relations liked_db PostTarget)} = 1"
    using like_count_counts_relations[OF post, of POST 2 20] ok post_like_dup_on_liked_db
    by auto
  have 2: "likes_unique unliked_db \<and>
      card {v. (1, v) \<in> set (like_relations unliked_db PostTarget)} = 0"
    using like_count_counts_relations[OF post, of DELETE 2 30] ok post_unlike_on_liked_db
    by auto
  have 3: "likes_unique comment_liked_db \<and>
      card {v. (1, v) \<in> set (like_relations comment_liked_db CommentTarget)} = 1"
    using like_count_counts_relations[OF comment, of POST 1 20] ok comment_like_on_liked_db
    by auto
  have 4: "card {v. (1, v) \<in> set (like_relations liked_db CommentTarget)} = 0"
    using like_count_counts_relations[OF comment, of DELETE 1 30] ok comment_unlike_on_liked_db
    by auto
  show ?thesis
    using ok 1 2 3 4 post_like_dup_on_liked_db post_unlike_on_liked_db comment_like_on_liked_db
      comment_unlike_on_liked_db
    by blast
qed

section \<open>Properties of the leaderboard\<close>

lemma set_window_events:
  "set (window_events s now) =
     {e \<in> set (karma_events s). now - timedelta_hours 24 \<le> ke_created_at e}"
  by (auto simp: window_events_def)

lemma map_fst_grouped_karma: "map fst (grouped_karma evs) = remdups (map ke_user evs)"
  by (simp add: grouped_karma_def o_def)

lemma length_grouped_karma: "length (grouped_karma evs) = card (ke_user ` set evs)"
proof -
  have "length (grouped_karma evs) = length (remdups (map ke_user evs))"
    by (simp add: grouped_karma_def)
  also have "\<dots> = card (set (map ke_user evs))"
    by (rule length_remdups_card_conv)
  finally show ?thesis by simp
qed

lemma Coalesce_Sum_delta: "Coalesce (Sum_delta evs) 0 = sum_list (map ke_delta evs)"
  by (simp add: Coalesce_def Sum_delta_def)

lemma grouped_karma_entry:
  assumes "(u, k) \<in> set (grouped_karma evs)"
  shows "u \<in> ke_user ` set evs \<and>
         k = sum_list (map ke_delta (filter (\<lambda>e. ke_user e = u) evs))"
  using assms by (auto simp: grouped_karma_def Coalesce_Sum_delta)

lemma window_karma_filter:
  "sum_list (map ke_delta (filter (\<lambda>e. ke_user e = u) (window_events s now))) =
     window_karma s now u"
  by (simp add: window_karma_def window_events_def conj_commute)

lemma grouped_window_entry:
  assumes "(u, k) \<in> set (grouped_karma (window_events s now))"
  shows "u \<in> window_users s now \<and> k = window_karma s now u"
  using grouped_karma_entry[OF assms]
  by (simp add: window_karma_filter window_users_def set_window_events)

lemma grouped_window_member:
  assumes "u \<in> window_users s now"
  shows "(u, window_karma s now u) \<in> set (grouped_karma (window_events s now))"
proof -
  have "u \<in> set (remdups (map ke_user (window_events s now)))"
    using assms by (simp add: window_users_def set_window_events)
  then show ?thesis
    by (auto simp: grouped_karma_def Coalesce_Sum_delta window_karma_filter)
qed

lemma ordered_by_karma_desc_facts:
  assumes "ordered_by_karma_desc groups ordered"
  shows "length ordered = length groups" and "set ordered = set groups"
    and "sorted_wrt (\<lambda>a b. snd b \<le> snd a) ordered"
    and "distinct (map fst groups) \<Longrightarrow> distinct (map fst ordered)"
proof -
  have m: "mset ordered = mset groups"
    using assms by (simp add: ordered_by_karma_desc_def)
  show "length ordered = length groups" using m by (rule mset_eq_length)
  show "set ordered = set groups" using m by (rule mset_eq_setD)
  show "sorted_wrt (\<lambda>a b. snd b \<le> snd a) ordered"
    using assms by (simp add: ordered_by_karma_desc_def)
  have "mset (map fst ordered) = mset (map fst groups)"
    using m by simp
  then show "distinct (map fst groups) \<Longrightarrow> distinct (map fst ordered)"
    using mset_eq_imp_distinct_iff by blast
qed

lemma leaderboard_payload_ids:
  "map (\<lambda>(u, k). (u_id u, k)) (leaderboard_payload us rows) =
     filter (\<lambda>(uid, k). \<exists>u \<in> set us. u_id u = uid) rows"
proof (induction us rows rule: leaderboard_payload.induct)
  case (1 us)
  show ?case by simp
next
  case (2 us uid karma rows)
  show ?case
  proof (cases "find (\<lambda>u. u_id u = uid) us")
    case None
    then have "\<not> (\<exists>u \<in> set us. u_id u = uid)" by (simp add: find_None_iff)
    then show ?thesis using None 2(1) by simp
  next
    case (Some u)
    then have "u \<in> set us \<and> u_id u = uid"
      by (auto simp: find_Some_iff)
    then show ?thesis using Some 2(2) by auto
  qed
qed

lemma leaderboard_payload_user:
  "(u, k) \<in> set (leaderboard_payload us rows) \<Longrightarrow> u \<in> set us"
proof (induction us rows rule: leaderboard_payload.induct)
  case (1 us)
  then show ?case by simp
next
  case (2 us uid karma rows)
  then show ?case
    by (auto simp: find_Some_iff split: option.splits)
qed

lemma leaderboard_rows_facts:
  assumes "leaderboard_rows s now ordered = Some rows"
  shows "length rows = min 5 (card (window_users s now))"
    and "sorted_wrt (\<lambda>a b. snd b \<le> snd a) rows"
    and "distinct (map fst rows)"
    and "\<And>u k. (u, k) \<in> set rows \<Longrightarrow> u \<in> window_users s now \<and> k = window_karma s now u"
    and "\<And>v u k. v \<in> window_users s now \<Longrightarrow> v \<notin> fst ` set rows \<Longrightarrow> (u, k) \<in> set rows \<Longrightarrow>
           window_karma s now v \<le> k"
proof -
  let ?G = "grouped_karma (window_events s now)"
  have adm: "ordered_by_karma_desc ?G ordered" and rows: "rows = take 5 ordered"
    using assms by (auto simp: leaderboard_rows_def split: if_splits)
  note facts = ordered_by_karma_desc_facts[OF adm]
  have len: "length ordered = card (window_users s now)"
    using facts(1) by (simp add: length_grouped_karma window_users_def set_window_events)
  show "length rows = min 5 (card (window_users s now))"
    using len by (simp add: rows min.commute)
  have srt: "sorted_wrt (\<lambda>a b. snd b \<le> snd a) (take 5 ordered @ drop 5 ordered)"
    using facts(3) by simp
  show "sorted_wrt (\<lambda>a b. snd b \<le> snd a) rows"
    using srt unfolding rows sorted_wrt_append by blast
  have "distinct (map fst ?G)"
    by (simp add: map_fst_grouped_karma)
  then have d: "distinct (map fst ordered)"
    by (rule facts(4))
  then have "distinct (take 5 (map fst ordered))"
    by (rule distinct_take)
  then show "distinct (map fst rows)"
    by (simp add: rows take_map)
  show "u \<in> window_users s now \<and> k = window_karma s now u" if "(u, k) \<in> set rows" for u k
  proof -
    have "(u, k) \<in> set ordered" using that rows by (auto dest: in_set_takeD)
    then have "(u, k) \<in> set ?G" using facts(2) by simp
    then show ?thesis by (rule grouped_window_entry)
  qed
  show "window_karma s now v \<le> k"
    if v: "v \<in> window_users s now" and out: "v \<notin> fst ` set rows" and uk: "(u, k) \<in> set rows"
    for v u k
  proof -
    have "(v, window_karma s now v) \<in> set ?G"
      using v by (rule grouped_window_member)
    then have "(v, window_karma s now v) \<in> set ordered"
      using facts(2) by simp
    moreover have "set ordered = set (take 5 ordered) \<union> set (drop 5 ordered)"
      by (metis append_take_drop_id set_append)
    moreover have "(v, window_karma s now v) \<notin> set (take 5 ordered)"
      using out rows by force
    ultimately have "(v, window_karma s now v) \<in> set (drop 5 ordered)"
      by blast
    moreover have "(u, k) \<in> set (take 5 ordered)"
      using uk rows by simp
    ultimately have "snd (v, window_karma s now v) \<le> snd (u, k)"
      using srt unfolding sorted_wrt_append by blast
    then show ?thesis by simp
  qed
qed

lemma leaderboard_resolved:
  assumes "leaderboard_rows s now ordered = Some rows" and "ledger_users_resolve s"
  shows "map (\<lambda>(u, k). (u_id u, k)) (leaderboard_payload (users s) rows) = rows"
proof -
  have "\<exists>u \<in> set (users s). u_id u = uid" if "(uid, k) \<in> set rows" for uid k
  proof -
    have "uid \<in> window_users s now"
      using leaderboard_rows_facts(4)[OF assms(1) that] by simp
    then obtain e where "e \<in> set (karma_events s)" and "ke_user e = uid"
      by (auto simp: window_users_def)
    then show ?thesis
      using assms(2) by (auto simp: ledger_users_resolve_def list_all_iff)
  qed
  then have "filter (\<lambda>(uid, k). \<exists>u \<in> set (users s). u_id u = uid) rows = rows"
    by (intro filter_True) auto
  then show ?thesis by (simp add: leaderboard_payload_ids)
qed

lemma positive_window_users_card:
  "card {u \<in> window_users s now. 0 < window_karma s now u} \<le> card (window_users s now)"
  by (rule card_mono) (auto simp: window_users_def)

lemma board_db_grouped:
  "grouped_karma (window_events board_db (30 * hour)) =
     [(2, 1), (1, 6), (4, 1), (5, 5), (6, 1), (7, 6), (3, 11)]"
  by (simp add: grouped_karma_def window_events_def board_db_def karma_event_def hour_def
      timedelta_hours_def Sum_delta_def Coalesce_def)

lemma board_db_resolves: "ledger_users_resolve board_db"
  by (simp add: ledger_users_resolve_def board_db_def karma_event_def board_user_def)

lemma board_db_answer_1:
  "leaderboard board_db (30 * hour) [(3, 11), (7, 6), (1, 6), (5, 5), (4, 1), (2, 1), (6, 1)] =
     Some [(board_user 3, 11), (board_user 7, 6), (board_user 1, 6), (board_user 5, 5),
           (board_user 4, 1)]"
  by (simp add: leaderboard_def leaderboard_rows_def ordered_by_karma_desc_def board_db_grouped)
    (simp add: board_db_def board_user_def)

lemma board_db_answer_2:
  "leaderboard board_db (30 * hour) [(3, 11), (1, 6), (7, 6), (5, 5), (6, 1), (2, 1), (4, 1)] =
     Some [(board_user 3, 11), (board_user 1, 6), (board_user 7, 6), (board_user 5, 5),
           (board_user 6, 1)]"
  by (simp add: leaderboard_def leaderboard_rows_def ordered_by_karma_desc_def board_db_grouped)
    (simp add: board_db_def board_user_def)

lemma window_users_list:
  "window_users s now = set (map ke_user (window_events s now))"
  by (simp add: window_users_def set_window_events)

lemma board_db_positive_users:
  "card {u \<in> window_users board_db (30 * hour). 0 < window_karma board_db (30 * hour) u} = 7"
proof -
  have "map ke_user (window_events board_db (30 * hour)) = [1, 2, 3, 1, 4, 3, 5, 6, 7, 7, 3]"
    by (simp add: window_events_def board_db_def karma_event_def hour_def timedelta_hours_def)
  then have users: "window_users board_db (30 * hour) = set [1, 2, 3, 1, 4, 3, 5, 6, 7, 7, 3]"
    by (simp only: window_users_list)
  have "{u \<in> set [1, 2, 3, 1, 4, 3, 5, 6, 7, 7, 3]. 0 < window_karma board_db (30 * hour) u} =
      set (filter (\<lambda>u. 0 < window_karma board_db (30 * hour) u)
             [1, 2, 3, 1, 4, 3, 5, 6, 7, 7, 3])"
    by (simp only: set_filter)
  also have "filter (\<lambda>u. 0 < window_karma board_db (30 * hour) u)
      [1, 2, 3, 1, 4, 3, 5, 6, 7, 7, 3] = [1, 2, 3, 1, 4, 3, 5, 6, 7, 7, 3]"
    by (simp add: window_karma_def board_db_def karma_event_def hour_def timedelta_hours_def)
  also have "card (set [1, 2, 3, 1, 4, 3, 5, 6, 7, 7, 3 :: nat]) = 7"
    by (subst card_set) simp
  finally show ?thesis
    unfolding users by simp
qed

lemma descending_unique:
  fixes xs ys :: "int list"
  assumes "sorted_wrt (\<lambda>a b. b \<le> a) xs" and "sorted_wrt (\<lambda>a b. b \<le> a) ys"
    and "mset xs = mset ys"
  shows "xs = ys"
proof -
  have "sorted (rev xs)" and "sorted (rev ys)"
    using assms(1,2) by (simp_all add: sorted_wrt_rev)
  moreover have "mset (rev xs) = mset (rev ys)"
    using assms(3) by simp
  ultimately have "rev xs = rev ys"
    by (metis properties_for_sort)
  then show ?thesis by simp
qed

lemma ordered_karma_column:
  assumes "ordered_by_karma_desc groups o1" and "ordered_by_karma_desc groups o2"
  shows "map snd o1 = map snd o2"
proof (rule descending_unique)
  show "sorted_wrt (\<lambda>a b. b \<le> a) (map snd o1)"
    using assms(1) by (simp add: ordered_by_karma_desc_def sorted_wrt_map)
  show "sorted_wrt (\<lambda>a b. b \<le> a) (map snd o2)"
    using assms(2) by (simp add: ordered_by_karma_desc_def sorted_wrt_map)
  have "mset o1 = mset o2"
    using assms by (simp add: ordered_by_karma_desc_def)
  then show "mset (map snd o1) = mset (map snd o2)"
    by simp
qed

lemma ordered_unique_without_ties:
  assumes "ordered_by_karma_desc groups o1" and "ordered_by_karma_desc groups o2"
    and "inj_on snd (set groups)"
  shows "o1 = o2"
proof (rule nth_equalityI)
  show len: "length o1 = length o2"
    using ordered_by_karma_desc_facts(1)[OF assms(1)] ordered_by_karma_desc_facts(1)[OF assms(2)]
    by simp
  fix i assume i: "i < length o1"
  have "map snd o1 ! i = map snd o2 ! i"
    using ordered_karma_column[OF assms(1,2)] by simp
  then have "snd (o1 ! i) = snd (o2 ! i)"
    using i len by simp
  moreover have "o1 ! i \<in> set groups"
    using i ordered_by_karma_desc_facts(2)[OF assms(1)] by (metis nth_mem)
  moreover have "o2 ! i \<in> set groups"
    using i len ordered_by_karma_desc_facts(2)[OF assms(2)] by (metis nth_mem)
  ultimately show "o1 ! i = o2 ! i"
    using assms(3) by (auto dest: inj_onD)
qed

lemma grouped_window_inj:
  assumes "inj_on (window_karma s now) (window_users s now)"
  shows "inj_on snd (set (grouped_karma (window_events s now)))"
proof (rule inj_onI)
  fix x y
  assume x: "x \<in> set (grouped_karma (window_events s now))"
    and y: "y \<in> set (grouped_karma (window_events s now))" and eq: "snd x = snd y"
  obtain u k where xk: "x = (u, k)" by (cases x)
  obtain v l where yl: "y = (v, l)" by (cases y)
  have "u \<in> window_users s now \<and> k = window_karma s now u"
    using x xk grouped_window_entry by blast
  moreover have "v \<in> window_users s now \<and> l = window_karma s now v"
    using y yl grouped_window_entry by blast
  ultimately show "x = y"
    using eq xk yl assms by (auto dest: inj_onD)
qed

lemma leaderboard_answer_exists: "\<exists>ordered payload. leaderboard s now ordered = Some payload"
proof -
  let ?G = "grouped_karma (window_events s now)"
  have "sorted (map snd (sort_key snd ?G))"
    by (rule sorted_sort_key)
  then have "sorted_wrt (\<lambda>a b. snd b \<le> snd a) (rev (sort_key snd ?G))"
    by (simp add: sorted_wrt_rev sorted_map)
  then have "ordered_by_karma_desc ?G (rev (sort_key snd ?G))"
    by (simp add: ordered_by_karma_desc_def)
  then have "leaderboard s now (rev (sort_key snd ?G)) =
      Some (leaderboard_payload (users s) (take 5 (rev (sort_key snd ?G))))"
    by (simp add: leaderboard_def leaderboard_rows_def)
  then show ?thesis by blast
qed

lemma liked_db_answer:
  "leaderboard liked_db 20 [(1, 5)] = Some [(\<lparr>u_id = 1, u_username = ''ann''\<rparr>, 5)]"
  by (simp add: leaderboard_def leaderboard_rows_def ordered_by_karma_desc_def grouped_karma_def
      window_events_def timedelta_hours_def Sum_delta_def Coalesce_def liked_db_def)

text \<open>
  Claim C4.  Whenever the ledger's beneficiaries are stored users, the leaderboard lists
  users that have an event at or after \<open>now - 24h\<close>, each once and with the sum of the deltas
  of its events in that window, in descending order of that sum; it has five entries, or as
  many as there are such users when they are fewer, and no user left out has more karma than
  a listed one.  With seven users of positive window karma it has exactly five entries.
  The database has an answer for every state (\<open>leaderboard_answer_exists\<close>).
\<close>

theorem leaderboard_top5_of_window:
  assumes "leaderboard s now ordered = Some payload" and "ledger_users_resolve s"
  shows "length payload = min 5 (card (window_users s now)) \<and>
         sorted_wrt (\<lambda>a b. snd b \<le> snd a) payload \<and>
         distinct (map (\<lambda>(u, k). u_id u) payload) \<and>
         (\<forall>(u, k) \<in> set payload.
            u \<in> set (users s) \<and> u_id u \<in> window_users s now \<and>
            k = window_karma s now (u_id u)) \<and>
         (\<forall>v \<in> window_users s now.
            v \<notin> (\<lambda>(u, k). u_id u) ` set payload \<longrightarrow>
            (\<forall>(u, k) \<in> set payload. window_karma s now v \<le> k)) \<and>
         (card {u \<in> window_users s now. 0 < window_karma s now u} = 7 \<longrightarrow> length payload = 5)"
proof -
  define f where "f = (\<lambda>(u :: User, k :: int). (u_id u, k))"
  obtain rows where rows: "leaderboard_rows s now ordered = Some rows"
    and payload: "payload = leaderboard_payload (users s) rows"
    using assms(1) by (auto simp: leaderboard_def)
  note facts = leaderboard_rows_facts[OF rows]
  have resolved: "map f payload = rows"
    using leaderboard_resolved[OF rows assms(2)] by (simp add: payload f_def)
  have fst_f: "fst \<circ> f = (\<lambda>(u, k). u_id u)" and snd_f: "\<And>x. snd (f x) = snd x"
    by (auto simp: f_def)
  have len: "length payload = min 5 (card (window_users s now))"
    using facts(1) resolved by (metis length_map)
  have srt: "sorted_wrt (\<lambda>a b. snd b \<le> snd a) payload"
    using facts(2) unfolding resolved[symmetric] sorted_wrt_map by (simp add: snd_f)
  have dist: "distinct (map (\<lambda>(u, k). u_id u) payload)"
    using facts(3) unfolding resolved[symmetric] by (simp add: fst_f)
  have mem: "f x \<in> set rows" if "x \<in> set payload" for x
    using that resolved by (metis image_eqI set_map)
  have entry: "u \<in> set (users s) \<and> u_id u \<in> window_users s now \<and>
      k = window_karma s now (u_id u)" if "(u, k) \<in> set payload" for u k
  proof -
    have "(u_id u, k) \<in> set rows" using mem[OF that] by (simp add: f_def)
    then have "u_id u \<in> window_users s now \<and> k = window_karma s now (u_id u)"
      by (rule facts(4))
    moreover have "u \<in> set (users s)"
      using that payload by (auto dest: leaderboard_payload_user)
    ultimately show ?thesis by simp
  qed
  have ids: "(\<lambda>(u, k). u_id u) ` set payload = fst ` set rows"
    unfolding resolved[symmetric] by (simp add: image_image fst_f[symmetric])
  have top: "window_karma s now v \<le> k"
    if "v \<in> window_users s now" and "v \<notin> (\<lambda>(u, k). u_id u) ` set payload"
      and "(u, k) \<in> set payload" for v u k
  proof -
    have "(u_id u, k) \<in> set rows" using mem[OF that(3)] by (simp add: f_def)
    then show ?thesis using facts(5)[OF that(1)] that(2) ids by blast
  qed
  have seven: "length payload = 5"
    if "card {u \<in> window_users s now. 0 < window_karma s now u} = 7"
    using that len positive_window_users_card[of s now] by simp
  show ?thesis
    using len srt dist entry top seven by blast
qed

theorem leaderboard_top5_of_window_witness:
  "leaderboard board_db (30 * hour) [(3, 11), (7, 6), (1, 6), (5, 5), (4, 1), (2, 1), (6, 1)] =
     Some [(board_user 3, 11), (board_user 7, 6), (board_user 1, 6), (board_user 5, 5),
           (board_user 4, 1)] \<and>
   ledger_users_resolve board_db \<and>
   card {u \<in> window_users board_db (30 * hour). 0 < window_karma board_db (30 * hour) u} = 7 \<and>
   length [(board_user 3, 11 :: int), (board_user 7, 6), (board_user 1, 6), (board_user 5, 5),
           (board_user 4, 1)] = min 5 (card (window_users board_db (30 * hour))) \<and>
   window_karma board_db (30 * hour) 3 = 11 \<and>
   window_karma board_db (30 * hour) 7 = 6"
proof -
  note inst = leaderboard_top5_of_window[OF board_db_answer_1 board_db_resolves]
  have "length [(board_user 3, 11 :: int), (board_user 7, 6), (board_user 1, 6),
      (board_user 5, 5), (board_user 4, 1)] = min 5 (card (window_users board_db (30 * hour)))"
    using inst by blast
  moreover have "window_karma board_db (30 * hour) 3 = 11 \<and>
      window_karma board_db (30 * hour) 7 = 6"
    using inst by (simp add: board_user_def)
  ultimately show ?thesis
    using board_db_answer_1 board_db_resolves board_db_positive_users by blast
qed

text \<open>
  Claim C5, amended.  Two answers of the leaderboard over the same ledger list the same karma
  values in the same order (the ledger's beneficiaries being stored users), and they are the
  same list whenever no two users of the window have equal karma; the order of users with
  equal karma is not fixed.
\<close>

theorem leaderboard_determined_up_to_ties:
  assumes "leaderboard s now o1 = Some p1" and "leaderboard s now o2 = Some p2"
  shows "(ledger_users_resolve s \<longrightarrow> map snd p1 = map snd p2) \<and>
         (inj_on (window_karma s now) (window_users s now) \<longrightarrow> p1 = p2)"
proof -
  let ?G = "grouped_karma (window_events s now)"
  have a1: "ordered_by_karma_desc ?G o1" and r1: "leaderboard_rows s now o1 = Some (take 5 o1)"
    and p1: "p1 = leaderboard_payload (users s) (take 5 o1)"
    using assms(1) by (auto simp: leaderboard_def leaderboard_rows_def split: if_splits)
  have a2: "ordered_by_karma_desc ?G o2" and r2: "leaderboard_rows s now o2 = Some (take 5 o2)"
    and p2: "p2 = leaderboard_payload (users s) (take 5 o2)"
    using assms(2) by (auto simp: leaderboard_def leaderboard_rows_def split: if_splits)
  have column: "map snd (take 5 o1) = map snd (take 5 o2)"
    using ordered_karma_column[OF a1 a2] by (simp add: take_map[symmetric])
  have "map snd p1 = map snd p2" if fk: "ledger_users_resolve s"
  proof -
    have "map snd (map (\<lambda>(u, k). (u_id u, k)) p1) = map snd (map (\<lambda>(u, k). (u_id u, k)) p2)"
      using column leaderboard_resolved[OF r1 fk] leaderboard_resolved[OF r2 fk] p1 p2 by simp
    then show ?thesis
      by (simp add: o_def split_def)
  qed
  moreover have "p1 = p2" if "inj_on (window_karma s now) (window_users s now)"
    using ordered_unique_without_ties[OF a1 a2 grouped_window_inj[OF that]] p1 p2 by simp
  ultimately show ?thesis by blast
qed

theorem leaderboard_determined_up_to_ties_witness:
  "ledger_users_resolve board_db \<and>
   map snd [(board_user 3, 11 :: int), (board_user 7, 6), (board_user 1, 6), (board_user 5, 5),
            (board_user 4, 1)] =
   map snd [(board_user 3, 11 :: int), (board_user 1, 6), (board_user 7, 6), (board_user 5, 5),
            (board_user 6, 1)] \<and>
   inj_on (window_karma liked_db 20) (window_users liked_db 20) \<and>
   leaderboard liked_db 20 [(1, 5)] = Some [(\<lparr>u_id = 1, u_username = ''ann''\<rparr>, 5)]"
proof -
  have inj: "inj_on (window_karma liked_db 20) (window_users liked_db 20)"
    by (simp add: window_users_list window_events_def timedelta_hours_def liked_db_def)
  show ?thesis
    using leaderboard_determined_up_to_ties[OF board_db_answer_1 board_db_answer_2]
      leaderboard_determined_up_to_ties[OF liked_db_answer liked_db_answer]
      board_db_resolves inj liked_db_answer
    by simp
qed

text \<open>
  Claim C5 as stated fails: over \<open>board_db\<close> the query allows an answer that lists user 7
  before user 1, both with karma 6, and keeps user 4 of the three users with karma 1, and it
  allows another that lists user 1 first and keeps user 6.
\<close>

theorem leaderboard_tie_order_not_fixed:
  "leaderboard board_db (30 * hour) [(3, 11), (7, 6), (1, 6), (5, 5), (4, 1), (2, 1), (6, 1)] =
     Some [(board_user 3, 11), (board_user 7, 6), (board_user 1, 6), (board_user 5, 5),
           (board_user 4, 1)] \<and>
   leaderboard board_db (30 * hour) [(3, 11), (1, 6), (7, 6), (5, 5), (6, 1), (2, 1), (4, 1)] =
     Some [(board_user 3, 11), (board_user 1, 6), (board_user 7, 6), (board_user 5, 5),
           (board_user 6, 1)]"
  using board_db_answer_1 board_db_answer_2 by simp

section \<open>Properties of the comment tree\<close>

lemma dict_get_setdefault_append:
  "dict_get (setdefault_append by_parent k c) p =
     dict_get by_parent p @ (if p = k then [c] else [])"
  by (simp add: dict_get_def setdefault_append_def split: option.splits)

lemma group_comments_result:
  assumes "group_comments cs by_parent roots = (by_parent', roots')"
  shows "roots' = roots @ filter (\<lambda>c. c_parent_id c = None) cs \<and>
         (\<forall>p. dict_get by_parent' p = dict_get by_parent p @ replies cs p)"
  using assms
proof (induction cs arbitrary: by_parent roots)
  case Nil
  then show ?case by (simp add: replies_def)
next
  case (Cons c cs)
  show ?case
  proof (cases "c_parent_id c")
    case None
    then have "group_comments cs by_parent (roots @ [c]) = (by_parent', roots')"
      using Cons.prems by simp
    from Cons.IH[OF this] show ?thesis
      using None by (simp add: replies_def)
  next
    case (Some k)
    then have "group_comments cs (setdefault_append by_parent k c) roots = (by_parent', roots')"
      using Cons.prems by simp
    from Cons.IH[OF this] show ?thesis
      using Some by (simp add: replies_def dict_get_setdefault_append)
  qed
qed

lemma build_comment_tree_unfold:
  "\<exists>by_parent. (\<forall>p. dict_get by_parent p = replies cs p) \<and>
     (\<forall>fuel. build_comment_tree fuel cs =
        those (map (comment_to_dict fuel by_parent) (filter (\<lambda>c. c_parent_id c = None) cs)))"
proof -
  obtain by_parent roots where g: "group_comments cs Map.empty [] = (by_parent, roots)"
    by (cases "group_comments cs Map.empty []")
  from group_comments_result[OF g]
  have "roots = filter (\<lambda>c. c_parent_id c = None) cs"
    and "\<forall>p. dict_get by_parent p = replies cs p"
    by (simp_all add: dict_get_def)
  then show ?thesis
    using g by (intro exI[of _ by_parent]) (simp add: build_comment_tree_def)
qed

lemma those_map_Some:
  assumes "\<And>x. x \<in> set xs \<Longrightarrow> \<exists>y. f x = Some y \<and> P x y"
  shows "\<exists>ys. those (map f xs) = Some ys \<and> list_all2 P xs ys"
  using assms
proof (induction xs)
  case Nil
  show ?case by simp
next
  case (Cons x xs)
  obtain y where y: "f x = Some y" "P x y"
    using Cons.prems[of x] by auto
  obtain ys where ys: "those (map f xs) = Some ys" "list_all2 P xs ys"
    using Cons.IH Cons.prems by auto
  show ?case
    using y ys by (intro exI[of _ "y # ys"]) simp
qed

lemma those_map_SomeD:
  assumes "those (map f xs) = Some ys"
  shows "list_all2 (\<lambda>x y. f x = Some y) xs ys"
  using assms
proof (induction xs arbitrary: ys)
  case Nil
  then show ?case by simp
next
  case (Cons x xs)
  then show ?case
    by (auto split: option.splits)
qed

lemma list_all2_left_ex: "list_all2 P xs ys \<Longrightarrow> x \<in> set xs \<Longrightarrow> \<exists>y. P x y"
  by (induction xs ys rule: list_all2_induct) auto

lemma comment_to_dict_Suc:
  "comment_to_dict fuel by_parent c = Some d \<Longrightarrow> comment_to_dict (Suc fuel) by_parent c = Some d"
proof (induction fuel arbitrary: c d)
  case 0
  then show ?case by (simp add: comment_to_dict.simps)
next
  case (Suc fuel)
  let ?chs = "dict_get by_parent (c_id c)"
  obtain ds where ds: "those (map (comment_to_dict fuel by_parent) ?chs) = Some ds"
    using Suc.prems by (auto simp: comment_to_dict.simps(2) split: option.splits)
  have "list_all2 (\<lambda>x y. comment_to_dict fuel by_parent x = Some y) ?chs ds"
    using ds by (rule those_map_SomeD)
  then have "\<forall>x \<in> set ?chs. \<exists>y. comment_to_dict fuel by_parent x = Some y"
    by (blast dest: list_all2_left_ex)
  then have eq: "map (comment_to_dict (Suc fuel) by_parent) ?chs =
      map (comment_to_dict fuel by_parent) ?chs"
    using Suc.IH by (intro map_cong) auto
  have "comment_to_dict (Suc (Suc fuel)) by_parent c = comment_to_dict (Suc fuel) by_parent c"
    by (simp only: comment_to_dict.simps(2) eq)
  then show ?case using Suc.prems by simp
qed

lemma comment_to_dict_mono:
  assumes "comment_to_dict fuel by_parent c = Some d" and "fuel \<le> fuel'"
  shows "comment_to_dict fuel' by_parent c = Some d"
  using assms(2,1) by (induction rule: dec_induct) (auto intro: comment_to_dict_Suc)

lemma chain_depth_le: "chain_depth cs fuel r = Some k \<Longrightarrow> k \<le> fuel"
  by (induction cs fuel r arbitrary: k rule: chain_depth.induct)
    (auto split: option.splits)

lemma chain_depth_Suc: "chain_depth cs fuel r = Some k \<Longrightarrow> chain_depth cs (Suc fuel) r = Some k"
  by (induction cs fuel r arbitrary: k rule: chain_depth.induct)
    (auto split: option.splits)

lemma chain_depth_mono:
  assumes "chain_depth cs fuel r = Some k" and "fuel \<le> fuel'"
  shows "chain_depth cs fuel' r = Some k"
  using assms(2,1) by (induction rule: dec_induct) (auto intro: chain_depth_Suc)

lemma chain_depth_unique:
  assumes "chain_depth cs m r = Some j" and "chain_depth cs n r = Some k"
  shows "j = k"
  using chain_depth_mono[OF assms(1), of "max m n"] chain_depth_mono[OF assms(2), of "max m n"]
  by simp

lemma chain_depth_exact: "chain_depth cs fuel r = Some k \<Longrightarrow> chain_depth cs k r = Some k"
  by (induction cs fuel r arbitrary: k rule: chain_depth.induct)
    (auto split: option.splits)

lemma chain_depth_ancestors:
  "chain_depth cs fuel r = Some k \<Longrightarrow> j < k \<Longrightarrow>
     \<exists>x \<in> set cs. \<exists>m. chain_depth cs m (c_parent_id x) = Some j"
proof (induction cs fuel r arbitrary: k rule: chain_depth.induct)
  case (1 cs fuel)
  then show ?case by simp
next
  case (2 cs p)
  then show ?case by simp
next
  case (3 cs fuel p)
  from "3.prems"(1) obtain x k' where x: "find (\<lambda>x. c_id x = p) cs = Some x"
    and k': "chain_depth cs fuel (c_parent_id x) = Some k'" and k: "k = Suc k'"
    by (auto split: option.splits)
  have mem: "x \<in> set cs"
    using x by (auto simp: find_Some_iff)
  show ?case
  proof (cases "j = k'")
    case True
    then show ?thesis using mem k' by blast
  next
    case False
    then have "j < k'" using "3.prems"(2) k by simp
    from "3.IH"[OF x k' this] show ?thesis .
  qed
qed

lemma depth_bound:
  assumes "c \<in> set cs" and "chain_depth cs m (c_parent_id c) = Some k"
  shows "k < length cs"
proof -
  define depth_of where
    "depth_of x = (THE j. \<exists>n. chain_depth cs n (c_parent_id x) = Some j)"
    for x :: AnnotatedComment
  have depth: "depth_of x = j" if "chain_depth cs n (c_parent_id x) = Some j" for x n j
    unfolding depth_of_def using that by (blast intro: the_equality chain_depth_unique)
  have "{..k} \<subseteq> depth_of ` set cs"
  proof
    fix j assume "j \<in> {..k}"
    then have "j = k \<or> j < k" by auto
    then obtain x n where "x \<in> set cs" and "chain_depth cs n (c_parent_id x) = Some j"
      using assms chain_depth_ancestors[OF assms(2)] by blast
    then show "j \<in> depth_of ` set cs"
      using depth by force
  qed
  then have "card {..k} \<le> card (depth_of ` set cs)"
    by (intro card_mono) auto
  also have "\<dots> \<le> card (set cs)"
    by (rule card_image_le) simp
  also have "\<dots> \<le> length cs"
    by (rule card_length)
  finally show ?thesis by simp
qed

lemma find_by_id:
  assumes "distinct (map c_id cs)" and "c \<in> set cs"
  shows "find (\<lambda>x. c_id x = c_id c) cs = Some c"
  using assms by (induction cs) (auto simp: rev_image_eqI)

lemma list_all2_map_eq:
  "list_all2 (\<lambda>x y. g y = f x \<and> Q y) xs ys \<Longrightarrow> map g ys = map f xs \<and> (\<forall>y \<in> set ys. Q y)"
  by (induction xs ys rule: list_all2_induct) auto

lemma rooted_by_depth:
  assumes "c \<in> set cs" and "chain_depth cs m (c_parent_id c) = Some k"
  shows "rooted cs c"
proof -
  have "k \<le> length cs"
    using depth_bound[OF assms] by simp
  then have "chain_depth cs (length cs) (c_parent_id c) = Some k"
    using chain_depth_mono[OF chain_depth_exact[OF assms(2)]] by blast
  then show ?thesis by (simp add: rooted_def)
qed

lemma comment_to_dict_rooted:
  assumes ids: "distinct (map c_id cs)" and bp: "\<forall>p. dict_get by_parent p = replies cs p"
  shows "c \<in> set cs \<Longrightarrow> chain_depth cs m (c_parent_id c) = Some k \<Longrightarrow>
         length cs \<le> fuel + k \<Longrightarrow>
         \<exists>d. comment_to_dict fuel by_parent c = Some d \<and> dict_fields d = comment_fields c \<and>
             (tree_ok cs d \<and>
              (\<forall>n \<in> set (nodes d). \<exists>x \<in> set cs. dict_fields n = comment_fields x \<and> rooted cs x))"
proof (induction fuel arbitrary: c m k)
  case 0
  then show ?case using depth_bound[of c cs m k] by simp
next
  case (Suc fuel)
  let ?chs = "replies cs (c_id c)"
  let ?P = "\<lambda>x d. dict_fields d = comment_fields x \<and>
      (tree_ok cs d \<and>
       (\<forall>n \<in> set (nodes d). \<exists>x \<in> set cs. dict_fields n = comment_fields x \<and> rooted cs x))"
  have child: "\<exists>d. comment_to_dict fuel by_parent x = Some d \<and> ?P x d" if "x \<in> set ?chs" for x
  proof -
    have x: "x \<in> set cs" and px: "c_parent_id x = Some (c_id c)"
      using that by (auto simp: replies_def)
    have "chain_depth cs (Suc m) (c_parent_id x) = Some (Suc k)"
      using px find_by_id[OF ids Suc.prems(1)] Suc.prems(2) by simp
    moreover have "length cs \<le> fuel + Suc k"
      using Suc.prems(3) by simp
    ultimately show ?thesis
      using Suc.IH[OF x] by blast
  qed
  obtain ds where ds: "those (map (comment_to_dict fuel by_parent) ?chs) = Some ds"
    and all2: "list_all2 ?P ?chs ds"
    using those_map_Some[of ?chs "comment_to_dict fuel by_parent" ?P] child by blast
  have fields: "map dict_fields ds = map comment_fields ?chs"
    and sub: "\<forall>d \<in> set ds. tree_ok cs d \<and>
      (\<forall>n \<in> set (nodes d). \<exists>x \<in> set cs. dict_fields n = comment_fields x \<and> rooted cs x)"
    using list_all2_map_eq[OF all2] by blast+
  let ?d = "CommentDict (c_id c) (c_body c) (c_author c, ac_author_username c)
      (c_created_at c) (ac_like_count c) (ac_liked_by_me c) ds"
  have run: "comment_to_dict (Suc fuel) by_parent c = Some ?d"
    using ds bp by (simp add: comment_to_dict.simps(2))
  have own: "dict_fields ?d = comment_fields c"
    by (simp add: dict_fields_def comment_fields_def)
  have ok: "tree_ok cs ?d"
    using fields sub by simp
  have "rooted cs c"
    using rooted_by_depth[OF Suc.prems(1,2)] .
  then have nodes_ok:
    "\<forall>n \<in> set (nodes ?d). \<exists>x \<in> set cs. dict_fields n = comment_fields x \<and> rooted cs x"
    using sub own Suc.prems(1) by auto
  show ?case
    using run own ok nodes_ok by blast
qed

lemma build_comment_tree_total:
  assumes ids: "distinct (map c_id cs)"
  shows "\<exists>forest. build_comment_tree (length cs) cs = Some forest \<and>
           map dict_fields forest = map comment_fields (filter (\<lambda>c. c_parent_id c = None) cs) \<and>
           (\<forall>d \<in> set forest. tree_ok cs d \<and>
              (\<forall>n \<in> set (nodes d). \<exists>x \<in> set cs. dict_fields n = comment_fields x \<and> rooted cs x))"
proof -
  obtain by_parent where bp: "\<forall>p. dict_get by_parent p = replies cs p"
    and build: "\<forall>fuel. build_comment_tree fuel cs =
        those (map (comment_to_dict fuel by_parent) (filter (\<lambda>c. c_parent_id c = None) cs))"
    using build_comment_tree_unfold[of cs] by blast
  let ?roots = "filter (\<lambda>c. c_parent_id c = None) cs"
  let ?P = "\<lambda>x d. dict_fields d = comment_fields x \<and>
      (tree_ok cs d \<and>
       (\<forall>n \<in> set (nodes d). \<exists>x \<in> set cs. dict_fields n = comment_fields x \<and> rooted cs x))"
  have root: "\<exists>d. comment_to_dict (length cs) by_parent x = Some d \<and> ?P x d"
    if "x \<in> set ?roots" for x
  proof -
    have "x \<in> set cs" and "chain_depth cs 0 (c_parent_id x) = Some 0"
      using that by simp_all
    then show ?thesis
      using comment_to_dict_rooted[OF ids bp, of x 0 0 "length cs"] by simp
  qed
  obtain forest where "those (map (comment_to_dict (length cs) by_parent) ?roots) = Some forest"
    and all2: "list_all2 ?P ?roots forest"
    using those_map_Some[of ?roots "comment_to_dict (length cs) by_parent" ?P] root by blast
  then have "build_comment_tree (length cs) cs = Some forest"
    using build by simp
  then show ?thesis
    using list_all2_map_eq[OF all2] by blast
qed

lemma build_comment_tree_mono:
  assumes "build_comment_tree fuel cs = Some forest" and "fuel \<le> fuel'"
  shows "build_comment_tree fuel' cs = Some forest"
proof -
  obtain by_parent where build: "\<forall>fuel. build_comment_tree fuel cs =
        those (map (comment_to_dict fuel by_parent) (filter (\<lambda>c. c_parent_id c = None) cs))"
    using build_comment_tree_unfold[of cs] by blast
  let ?roots = "filter (\<lambda>c. c_parent_id c = None) cs"
  have "list_all2 (\<lambda>x y. comment_to_dict fuel by_parent x = Some y) ?roots forest"
    using assms(1) build by (intro those_map_SomeD) simp
  then have "\<forall>x \<in> set ?roots. \<exists>y. comment_to_dict fuel by_parent x = Some y"
    by (blast dest: list_all2_left_ex)
  then have eq: "map (comment_to_dict fuel' by_parent) ?roots =
      map (comment_to_dict fuel by_parent) ?roots"
    using comment_to_dict_mono[OF _ assms(2)] by (intro map_cong) auto
  have "build_comment_tree fuel' cs = build_comment_tree fuel cs"
    by (simp only: build eq)
  then show ?thesis
    using assms(1) by simp
qed

lemma build_comment_tree_unique:
  assumes "build_comment_tree m cs = Some f1" and "build_comment_tree n cs = Some f2"
  shows "f1 = f2"
  using build_comment_tree_mono[OF assms(1), of "max m n"]
    build_comment_tree_mono[OF assms(2), of "max m n"]
  by simp

lemma d_created_at_fields: "d_created_at d = fst (snd (snd (snd (dict_fields d))))"
  by (simp add: dict_fields_def)

lemma c_created_at_fields: "c_created_at c = fst (snd (snd (snd (comment_fields c))))"
  by (simp add: comment_fields_def)

lemma created_at_of_fields:
  assumes "map dict_fields ds = map comment_fields xs"
  shows "map d_created_at ds = map c_created_at xs"
proof -
  have "map d_created_at ds = map (\<lambda>f. fst (snd (snd (snd f)))) (map dict_fields ds)"
    by (simp add: d_created_at_fields o_def)
  also have "\<dots> = map (\<lambda>f. fst (snd (snd (snd f)))) (map comment_fields xs)"
    by (simp only: assms)
  also have "\<dots> = map c_created_at xs"
    by (simp add: c_created_at_fields o_def)
  finally show ?thesis .
qed

lemma tree_ok_chronological:
  assumes "sorted (map c_created_at cs)"
  shows "tree_ok cs d \<Longrightarrow> chronological d"
proof (induction d)
  case (CommentDict i body author t lc lm children)
  have "map d_created_at children = map c_created_at (replies cs i)"
    using CommentDict.prems by (intro created_at_of_fields) simp
  moreover have "sorted (map c_created_at (replies cs i))"
    unfolding replies_def using assms by (rule sorted_filter)
  ultimately have "sorted (map d_created_at children)"
    by simp
  moreover have "\<forall>child \<in> set children. chronological child"
    using CommentDict by simp
  ultimately show ?case by simp
qed

lemma nodes_self: "d \<in> set (nodes d)"
  by (cases d) simp

lemma nodes_child:
  "n \<in> set (nodes d) \<Longrightarrow> ch \<in> set (d_children n) \<Longrightarrow> ch \<in> set (nodes d)"
proof (induction d)
  case (CommentDict i body author t lc lm children)
  show ?case
  proof (cases "n = CommentDict i body author t lc lm children")
    case True
    then have "ch \<in> set children" using CommentDict.prems(2) by simp
    then show ?thesis using nodes_self[of ch] by auto
  next
    case False
    then obtain c where "c \<in> set children" and "n \<in> set (nodes c)"
      using CommentDict.prems(1) by auto
    then show ?thesis
      using CommentDict.IH[of c] CommentDict.prems(2) by auto
  qed
qed

lemma tree_ok_nodes: "tree_ok cs d \<Longrightarrow> n \<in> set (nodes d) \<Longrightarrow> tree_ok cs n"
proof (induction d)
  case (CommentDict i body author t lc lm children)
  show ?case
  proof (cases "n = CommentDict i body author t lc lm children")
    case True
    then show ?thesis using CommentDict.prems(1) by simp
  next
    case False
    then obtain c where "c \<in> set children" and "n \<in> set (nodes c)"
      using CommentDict.prems(2) by auto
    then show ?thesis
      using CommentDict.IH[of c] CommentDict.prems(1) by auto
  qed
qed

lemma tree_ok_children:
  "tree_ok cs n \<Longrightarrow> map dict_fields (d_children n) = map comment_fields (replies cs (d_id n))"
  by (cases n) simp

lemma chain_depth_zero: "chain_depth cs m r = Some 0 \<Longrightarrow> r = None"
  by (cases "(cs, m, r)" rule: chain_depth.cases) (auto split: option.splits)

lemma chain_depth_step:
  assumes "chain_depth cs m (Some p) = Some (Suc k)"
  shows "\<exists>x n. find (\<lambda>x. c_id x = p) cs = Some x \<and> chain_depth cs n (c_parent_id x) = Some k"
  using assms by (cases m) (auto split: option.splits)

lemma rooted_comment_appears:
  assumes roots: "map dict_fields forest = map comment_fields (filter (\<lambda>c. c_parent_id c = None) cs)"
    and ok: "\<forall>d \<in> set forest. tree_ok cs d"
  shows "c \<in> set cs \<Longrightarrow> chain_depth cs m (c_parent_id c) = Some k \<Longrightarrow>
         \<exists>d \<in> set forest. \<exists>n \<in> set (nodes d). dict_fields n = comment_fields c"
proof (induction k arbitrary: c m)
  case 0
  then have "c \<in> set (filter (\<lambda>c. c_parent_id c = None) cs)"
    using chain_depth_zero by auto
  then have "comment_fields c \<in> set (map dict_fields forest)"
    unfolding roots by simp
  then obtain d where "d \<in> set forest" and "dict_fields d = comment_fields c"
    by auto
  then show ?case using nodes_self by blast
next
  case (Suc k)
  obtain p where p: "c_parent_id c = Some p"
    using Suc.prems(2) by (cases "c_parent_id c") simp_all
  obtain x n where x: "find (\<lambda>x. c_id x = p) cs = Some x"
    and dx: "chain_depth cs n (c_parent_id x) = Some k"
    using chain_depth_step Suc.prems(2) p by metis
  have xin: "x \<in> set cs" and xid: "c_id x = p"
    using x by (auto simp: find_Some_iff)
  obtain d nd where d: "d \<in> set forest" and nd: "nd \<in> set (nodes d)"
    and fx: "dict_fields nd = comment_fields x"
    using Suc.IH[OF xin dx] by blast
  have "d_id nd = p"
    using fx xid by (simp add: dict_fields_def comment_fields_def)
  moreover have "tree_ok cs nd"
    using ok d nd tree_ok_nodes by blast
  ultimately have "map dict_fields (d_children nd) = map comment_fields (replies cs p)"
    using tree_ok_children by blast
  moreover have "c \<in> set (replies cs p)"
    using Suc.prems(1) p by (simp add: replies_def)
  ultimately have "comment_fields c \<in> set (map dict_fields (d_children nd))"
    by simp
  then obtain ch where "ch \<in> set (d_children nd)" and "dict_fields ch = comment_fields c"
    by auto
  then show ?case
    using d nd nodes_child by blast
qed

lemma orphan_thread_tree:
  "build_comment_tree (length orphan_thread) orphan_thread =
     Some [thread_dict 1 1 [thread_dict 4 4 []]]"
  by (simp add: build_comment_tree_def orphan_thread_def thread_comment_def thread_dict_def
      setdefault_append_def dict_get_def comment_to_dict.simps)

lemma chain_depth_at_length:
  assumes "c \<in> set cs" and "chain_depth cs m (c_parent_id c) = Some k"
  shows "chain_depth cs (length cs) (c_parent_id c) = Some k"
proof -
  have "k \<le> length cs"
    using depth_bound[OF assms] by simp
  then show ?thesis
    using chain_depth_mono[OF chain_depth_exact[OF assms(2)]] by blast
qed

lemma reply_depth_withinD:
  assumes "reply_depth_within limit cs" and "c \<in> set cs"
    and "chain_depth cs m (c_parent_id c) = Some k"
  shows "k < limit"
  using assms(1,2) chain_depth_at_length[OF assms(2,3)]
  by (auto simp: reply_depth_within_def list_all_iff)

lemma reply_depth_within_length: "reply_depth_within (length cs) cs"
  by (auto simp: reply_depth_within_def list_all_iff split: option.splits dest: depth_bound)

lemma not_reply_depth_withinD:
  assumes "\<not> reply_depth_within limit cs"
  shows "\<exists>c \<in> set cs. \<exists>k. chain_depth cs (length cs) (c_parent_id c) = Some k \<and> limit \<le> k"
proof -
  from assms obtain c where c: "c \<in> set cs"
    and bad: "\<not> (case chain_depth cs (length cs) (c_parent_id c) of
                   None \<Rightarrow> True | Some k \<Rightarrow> k < limit)"
    by (auto simp: reply_depth_within_def list_all_iff)
  then obtain k where "chain_depth cs (length cs) (c_parent_id c) = Some k" and "\<not> k < limit"
    by (cases "chain_depth cs (length cs) (c_parent_id c)") auto
  then show ?thesis
    using c by (intro bexI[of _ c] exI[of _ k]) simp_all
qed

lemma comment_to_dict_within:
  assumes ids: "distinct (map c_id cs)" and bp: "\<forall>p. dict_get by_parent p = replies cs p"
    and within: "reply_depth_within limit cs"
  shows "c \<in> set cs \<Longrightarrow> chain_depth cs m (c_parent_id c) = Some k \<Longrightarrow> limit \<le> fuel + k \<Longrightarrow>
         \<exists>d. comment_to_dict fuel by_parent c = Some d"
proof (induction fuel arbitrary: c m k)
  case 0
  then show ?case using reply_depth_withinD[OF within, of c m k] by simp
next
  case (Suc fuel)
  let ?chs = "replies cs (c_id c)"
  have child: "\<exists>d. comment_to_dict fuel by_parent x = Some d \<and> True" if "x \<in> set ?chs" for x
  proof -
    have x: "x \<in> set cs" and px: "c_parent_id x = Some (c_id c)"
      using that by (auto simp: replies_def)
    have "chain_depth cs (Suc m) (c_parent_id x) = Some (Suc k)"
      using px find_by_id[OF ids Suc.prems(1)] Suc.prems(2) by simp
    moreover have "limit \<le> fuel + Suc k"
      using Suc.prems(3) by simp
    ultimately show ?thesis
      using Suc.IH[OF x] by blast
  qed
  obtain ds where "those (map (comment_to_dict fuel by_parent) ?chs) = Some ds"
    using those_map_Some[of ?chs "comment_to_dict fuel by_parent" "\<lambda>x d. True"] child by blast
  then show ?case
    using bp by (simp add: comment_to_dict.simps(2))
qed

lemma build_comment_tree_within:
  assumes ids: "distinct (map c_id cs)" and within: "reply_depth_within limit cs"
  shows "\<exists>forest. build_comment_tree limit cs = Some forest"
proof -
  obtain by_parent where bp: "\<forall>p. dict_get by_parent p = replies cs p"
    and build: "\<forall>fuel. build_comment_tree fuel cs =
        those (map (comment_to_dict fuel by_parent) (filter (\<lambda>c. c_parent_id c = None) cs))"
    using build_comment_tree_unfold[of cs] by blast
  let ?roots = "filter (\<lambda>c. c_parent_id c = None) cs"
  have root: "\<exists>d. comment_to_dict limit by_parent x = Some d \<and> True" if "x \<in> set ?roots" for x
  proof -
    have "x \<in> set cs" and "chain_depth cs 0 (c_parent_id x) = Some 0"
      using that by simp_all
    then show ?thesis
      using comment_to_dict_within[OF ids bp within, of x 0 0 limit] by simp
  qed
  obtain forest where "those (map (comment_to_dict limit by_parent) ?roots) = Some forest"
    using those_map_Some[of ?roots "comment_to_dict limit by_parent" "\<lambda>x d. True"] root by blast
  then show ?thesis
    using build by simp
qed

lemma those_None: "None \<in> set xs \<Longrightarrow> those xs = None"
  by (induction xs) (auto split: option.splits)

lemma comment_to_dict_too_deep:
  assumes ids: "distinct (map c_id cs)" and bp: "\<forall>p. dict_get by_parent p = replies cs p"
    and c: "c \<in> set cs" and depth: "chain_depth cs m (c_parent_id c) = Some k"
  shows "j \<le> k \<Longrightarrow>
         \<exists>a \<in> set cs. \<exists>n. chain_depth cs n (c_parent_id a) = Some (k - j) \<and>
           (\<forall>fuel \<le> j. comment_to_dict fuel by_parent a = None)"
proof (induction j)
  case 0
  show ?case
    using c depth by (intro bexI[of _ c] exI[of _ m]) (simp_all add: comment_to_dict.simps(1))
next
  case (Suc j)
  then obtain a n where a: "a \<in> set cs"
    and da: "chain_depth cs n (c_parent_id a) = Some (k - j)"
    and none: "\<forall>fuel \<le> j. comment_to_dict fuel by_parent a = None"
    by auto
  have "k - j = Suc (k - Suc j)"
    using Suc.prems by simp
  then obtain p where p: "c_parent_id a = Some p"
    using da by (cases "c_parent_id a") auto
  obtain x n' where x: "find (\<lambda>x. c_id x = p) cs = Some x"
    and dx: "chain_depth cs n' (c_parent_id x) = Some (k - Suc j)"
    using chain_depth_step[of cs n p "k - Suc j"] da p \<open>k - j = Suc (k - Suc j)\<close> by auto
  have xin: "x \<in> set cs" and xid: "c_id x = p"
    using x by (auto simp: find_Some_iff)
  have child: "a \<in> set (dict_get by_parent (c_id x))"
    using a p xid bp by (simp add: replies_def)
  have "comment_to_dict fuel by_parent x = None" if "fuel \<le> Suc j" for fuel
  proof (cases fuel)
    case 0
    then show ?thesis by (simp add: comment_to_dict.simps(1))
  next
    case (Suc f)
    then have "comment_to_dict f by_parent a = None"
      using none that by simp
    then have "None \<in> set (map (comment_to_dict f by_parent) (dict_get by_parent (c_id x)))"
      using child by force
    then have "those (map (comment_to_dict f by_parent) (dict_get by_parent (c_id x))) = None"
      by (rule those_None)
    then show ?thesis
      by (simp add: Suc comment_to_dict.simps(2))
  qed
  then show ?case
    using xin dx by blast
qed

lemma build_comment_tree_too_deep:
  assumes ids: "distinct (map c_id cs)" and notin: "\<not> reply_depth_within limit cs"
  shows "build_comment_tree limit cs = None"
proof -
  obtain by_parent where bp: "\<forall>p. dict_get by_parent p = replies cs p"
    and build: "\<forall>fuel. build_comment_tree fuel cs =
        those (map (comment_to_dict fuel by_parent) (filter (\<lambda>c. c_parent_id c = None) cs))"
    using build_comment_tree_unfold[of cs] by blast
  obtain c k where c: "c \<in> set cs"
    and k: "chain_depth cs (length cs) (c_parent_id c) = Some k" and deep: "limit \<le> k"
    using not_reply_depth_withinD[OF notin] by blast
  obtain a n where a: "a \<in> set cs" and da: "chain_depth cs n (c_parent_id a) = Some (k - k)"
    and none: "\<forall>fuel \<le> k. comment_to_dict fuel by_parent a = None"
    using comment_to_dict_too_deep[OF ids bp c k, of k] by auto
  have "c_parent_id a = None"
    using da chain_depth_zero by simp
  then have "a \<in> set (filter (\<lambda>c. c_parent_id c = None) cs)"
    using a by simp
  moreover have "comment_to_dict limit by_parent a = None"
    using none deep by simp
  ultimately have "None \<in> set (map (comment_to_dict limit by_parent)
      (filter (\<lambda>c. c_parent_id c = None) cs))"
    by force
  then have "those (map (comment_to_dict limit by_parent)
      (filter (\<lambda>c. c_parent_id c = None) cs)) = None"
    by (rule those_None)
  then show ?thesis
    by (simp only: build)
qed

lemma c_id_chain_comment [simp]: "c_id (chain_comment i) = Suc i"
  by (simp add: chain_comment_def thread_comment_def)

lemma c_parent_id_chain_comment:
  "c_parent_id (chain_comment i) = (if i = 0 then None else Some i)"
  by (simp add: chain_comment_def thread_comment_def)

lemma c_created_at_chain_comment [simp]: "c_created_at (chain_comment i) = int i"
  by (simp add: chain_comment_def thread_comment_def)

lemma length_reply_chain [simp]: "length (reply_chain n) = n"
  by (simp add: reply_chain_def)

lemma chain_comment_mem: "i < n \<Longrightarrow> chain_comment i \<in> set (reply_chain n)"
  by (simp add: reply_chain_def)

lemma distinct_reply_chain: "distinct (map c_id (reply_chain n))"
  by (simp add: reply_chain_def o_def distinct_map inj_on_def)

lemma sorted_reply_chain: "sorted (map c_created_at (reply_chain n))"
proof -
  have "map c_created_at (reply_chain n) = map int [0..<n]"
    by (simp add: reply_chain_def o_def)
  moreover have "sorted (map int [0..<n])"
    by (simp add: sorted_map sorted_wrt_iff_nth_less)
  ultimately show ?thesis by simp
qed

lemma chain_depth_reply_chain:
  "i < n \<Longrightarrow> i \<le> m \<Longrightarrow>
     chain_depth (reply_chain n) m (c_parent_id (chain_comment i)) = Some i"
proof (induction i arbitrary: m)
  case 0
  show ?case by (simp add: c_parent_id_chain_comment)
next
  case (Suc i)
  obtain m' where m: "m = Suc m'" and le: "i \<le> m'"
    using Suc.prems(2) by (cases m) auto
  have i: "i < n"
    using Suc.prems(1) by simp
  have "find (\<lambda>x. c_id x = c_id (chain_comment i)) (reply_chain n) = Some (chain_comment i)"
    using distinct_reply_chain chain_comment_mem[OF i] by (rule find_by_id)
  then have "find (\<lambda>x. c_id x = Suc i) (reply_chain n) = Some (chain_comment i)"
    by simp
  then show ?case
    using Suc.IH[OF i le] by (simp add: m c_parent_id_chain_comment)
qed

lemma rooted_reply_chain: "list_all (rooted (reply_chain n)) (reply_chain n)"
proof -
  have "rooted (reply_chain n) (chain_comment i)" if "i < n" for i
    using chain_depth_reply_chain[OF that, of n] that by (simp add: rooted_def)
  then show ?thesis
    by (auto simp: list_all_iff reply_chain_def)
qed

lemma reply_chain_too_deep:
  assumes "limit < n"
  shows "\<not> reply_depth_within limit (reply_chain n)"
proof
  assume within: "reply_depth_within limit (reply_chain n)"
  obtain i where n: "n = Suc i"
    using assms by (cases n) auto
  have "chain_depth (reply_chain n) i (c_parent_id (chain_comment i)) = Some i"
    using chain_depth_reply_chain[of i n i] n by simp
  then have "i < limit"
    using reply_depth_withinD[OF within chain_comment_mem[of i n]] n by simp
  then show False
    using assms n by simp
qed

lemma example_thread_tree_3:
  "build_comment_tree 3 example_thread =
     Some [thread_dict 1 1 [thread_dict 3 3 [thread_dict 4 4 []]], thread_dict 2 2 []]"
  by (simp add: build_comment_tree_def example_thread_def thread_comment_def thread_dict_def
      setdefault_append_def dict_get_def comment_to_dict.simps eval_nat_numeral)

text \<open>
  Claim C6, amended.  For a comment list with distinct ids whose reply chains nest no deeper
  than the interpreter's allowance of nested calls, the tree builder returns: its roots are the
  comments with no parent, in input order, and every node has exactly its direct replies as
  children, in input order.  When the list is ascending by creation time every sibling list is
  so too, and when every parent chain ends at a comment with no parent every comment of the
  list is a node of the forest.  For a list with a deeper reply chain the builder does not
  return (\<^verbatim>\<open>RecursionError\<close>).  An allowance of as many calls as the list has comments
  always suffices.
\<close>

theorem build_comment_tree_forest:
  assumes "distinct (map c_id cs)"
  shows "(reply_depth_within limit cs \<longrightarrow>
            (\<exists>forest. build_comment_tree limit cs = Some forest \<and>
               map dict_fields forest =
                 map comment_fields (filter (\<lambda>c. c_parent_id c = None) cs) \<and>
               (\<forall>d \<in> set forest. tree_ok cs d) \<and>
               (sorted (map c_created_at cs) \<longrightarrow>
                  sorted (map d_created_at forest) \<and> (\<forall>d \<in> set forest. chronological d)) \<and>
               (list_all (rooted cs) cs \<longrightarrow>
                  (\<forall>c \<in> set cs. \<exists>d \<in> set forest. \<exists>n \<in> set (nodes d).
                     dict_fields n = comment_fields c)))) \<and>
         (\<not> reply_depth_within limit cs \<longrightarrow> build_comment_tree limit cs = None) \<and>
         reply_depth_within (length cs) cs"
proof (intro conjI impI)
  assume within: "reply_depth_within limit cs"
  obtain forest where run: "build_comment_tree limit cs = Some forest"
    using build_comment_tree_within[OF assms within] by blast
  obtain forest0 where run0: "build_comment_tree (length cs) cs = Some forest0"
    and roots0: "map dict_fields forest0 =
      map comment_fields (filter (\<lambda>c. c_parent_id c = None) cs)"
    and ok0: "\<forall>d \<in> set forest0. tree_ok cs d"
    using build_comment_tree_total[OF assms] by blast
  have same: "forest0 = forest"
    using build_comment_tree_unique[OF run0 run] .
  have roots: "map dict_fields forest =
      map comment_fields (filter (\<lambda>c. c_parent_id c = None) cs)"
    using roots0 same by simp
  have ok: "\<forall>d \<in> set forest. tree_ok cs d"
    using ok0 same by simp
  have chrono: "sorted (map d_created_at forest) \<and> (\<forall>d \<in> set forest. chronological d)"
    if srt: "sorted (map c_created_at cs)"
  proof -
    have "map d_created_at forest =
        map c_created_at (filter (\<lambda>c. c_parent_id c = None) cs)"
      using roots by (rule created_at_of_fields)
    then have "sorted (map d_created_at forest)"
      using sorted_filter[OF srt] by simp
    then show ?thesis
      using ok tree_ok_chronological[OF srt] by blast
  qed
  have complete: "\<forall>c \<in> set cs. \<exists>d \<in> set forest. \<exists>n \<in> set (nodes d).
      dict_fields n = comment_fields c" if all: "list_all (rooted cs) cs"
  proof
    fix c assume c: "c \<in> set cs"
    then have "rooted cs c" using all by (simp add: list_all_iff)
    then obtain k where "chain_depth cs (length cs) (c_parent_id c) = Some k"
      by (auto simp: rooted_def)
    then show "\<exists>d \<in> set forest. \<exists>n \<in> set (nodes d). dict_fields n = comment_fields c"
      using rooted_comment_appears[OF roots ok c] by blast
  qed
  show "\<exists>forest. build_comment_tree limit cs = Some forest \<and>
       map dict_fields forest =
         map comment_fields (filter (\<lambda>c. c_parent_id c = None) cs) \<and>
       (\<forall>d \<in> set forest. tree_ok cs d) \<and>
       (sorted (map c_created_at cs) \<longrightarrow>
          sorted (map d_created_at forest) \<and> (\<forall>d \<in> set forest. chronological d)) \<and>
       (list_all (rooted cs) cs \<longrightarrow>
          (\<forall>c \<in> set cs. \<exists>d \<in> set forest. \<exists>n \<in> set (nodes d).
             dict_fields n = comment_fields c))"
    using run roots ok chrono complete by blast
next
  assume "\<not> reply_depth_within limit cs"
  then show "build_comment_tree limit cs = None"
    using build_comment_tree_too_deep[OF assms] by blast
next
  show "reply_depth_within (length cs) cs"
    by (rule reply_depth_within_length)
qed

theorem build_comment_tree_forest_witness:
  "distinct (map c_id example_thread) \<and> sorted (map c_created_at example_thread) \<and>
   list_all (rooted example_thread) example_thread \<and>
   reply_depth_within 3 example_thread \<and>
   build_comment_tree 3 example_thread =
     Some [thread_dict 1 1 [thread_dict 3 3 [thread_dict 4 4 []]], thread_dict 2 2 []] \<and>
   tree_ok example_thread (thread_dict 1 1 [thread_dict 3 3 [thread_dict 4 4 []]]) \<and>
   chronological (thread_dict 1 1 [thread_dict 3 3 [thread_dict 4 4 []]]) \<and>
   \<not> reply_depth_within 2 example_thread \<and>
   build_comment_tree 2 example_thread = None"
proof -
  have ids: "distinct (map c_id example_thread)"
    by (simp add: example_thread_def thread_comment_def)
  have srt: "sorted (map c_created_at example_thread)"
    by (simp add: example_thread_def thread_comment_def)
  have all: "list_all (rooted example_thread) example_thread"
    by (simp add: rooted_def example_thread_def thread_comment_def)
  have in3: "reply_depth_within 3 example_thread"
    by (simp add: reply_depth_within_def example_thread_def thread_comment_def)
  have out2: "\<not> reply_depth_within 2 example_thread"
    by (simp add: reply_depth_within_def example_thread_def thread_comment_def)
  have none: "build_comment_tree 2 example_thread = None"
    using build_comment_tree_forest[OF ids, of 2] out2 by blast
  have "tree_ok example_thread (thread_dict 1 1 [thread_dict 3 3 [thread_dict 4 4 []]]) \<and>
      chronological (thread_dict 1 1 [thread_dict 3 3 [thread_dict 4 4 []]])"
    using build_comment_tree_forest[OF ids, of 3] in3 srt example_thread_tree_3 by auto
  then show ?thesis
    using ids srt all in3 out2 none example_thread_tree_3 by blast
qed

text \<open>
  Claim C6 as stated fails: a thread of 1001 comments, each a reply to the one before it, is
  ascending by creation time and a forest, and the builder does not return for it under an
  allowance of 1000 nested calls, which the default recursion limit does not exceed.
\<close>

theorem deep_reply_chain_exceeds_recursion_limit:
  "distinct (map c_id (reply_chain 1001)) \<and> sorted (map c_created_at (reply_chain 1001)) \<and>
   list_all (rooted (reply_chain 1001)) (reply_chain 1001) \<and>
   build_comment_tree 1000 (reply_chain 1001) = None"
proof -
  have "\<not> reply_depth_within 1000 (reply_chain 1001)"
    by (rule reply_chain_too_deep) simp
  then have "build_comment_tree 1000 (reply_chain 1001) = None"
    using build_comment_tree_too_deep[OF distinct_reply_chain] by blast
  then show ?thesis
    using distinct_reply_chain sorted_reply_chain rooted_reply_chain by blast
qed

text \<open>
  Claim C10.  For a comment list with distinct ids the forest the tree builder returns holds
  only comments whose parent chain ends, within the list, at a comment with no parent.  A
  comment whose parent id is the id of no comment of the list has no such chain, neither has a
  reply to a comment without one, and no node of the forest carries the id of such a comment.
\<close>

theorem unrooted_comments_are_omitted:
  assumes "distinct (map c_id cs)"
  shows "\<exists>forest. build_comment_tree (length cs) cs = Some forest \<and>
           (\<forall>fuel forest'. build_comment_tree fuel cs = Some forest' \<longrightarrow> forest' = forest) \<and>
           (\<forall>d \<in> set forest. \<forall>n \<in> set (nodes d).
              \<exists>x \<in> set cs. dict_fields n = comment_fields x \<and> rooted cs x) \<and>
           (\<forall>c \<in> set cs. \<not> rooted cs c \<longrightarrow>
              (\<forall>d \<in> set forest. \<forall>n \<in> set (nodes d). d_id n \<noteq> c_id c)) \<and>
           (\<forall>c \<in> set cs. \<forall>p. c_parent_id c = Some p \<and> p \<notin> c_id ` set cs \<longrightarrow> \<not> rooted cs c) \<and>
           (\<forall>c \<in> set cs. \<forall>x \<in> set cs.
              c_parent_id c = Some (c_id x) \<and> \<not> rooted cs x \<longrightarrow> \<not> rooted cs c)"
proof -
  obtain forest where run: "build_comment_tree (length cs) cs = Some forest"
    and only: "\<forall>d \<in> set forest. \<forall>n \<in> set (nodes d).
      \<exists>x \<in> set cs. dict_fields n = comment_fields x \<and> rooted cs x"
    using build_comment_tree_total[OF assms] by blast
  have same: "\<forall>fuel forest'. build_comment_tree fuel cs = Some forest' \<longrightarrow> forest' = forest"
    using build_comment_tree_unique[OF _ run] by blast
  have absent: "d_id n \<noteq> c_id c"
    if c: "c \<in> set cs" and nr: "\<not> rooted cs c" and d: "d \<in> set forest" and n: "n \<in> set (nodes d)"
    for c d n
  proof
    assume eq: "d_id n = c_id c"
    obtain x where x: "x \<in> set cs" and fx: "dict_fields n = comment_fields x" and rx: "rooted cs x"
      using only d n by blast
    have "c_id x = c_id c"
      using fx eq by (simp add: dict_fields_def comment_fields_def)
    then have "x = c"
      using assms x c by (simp add: distinct_map inj_on_def)
    then show False using rx nr by simp
  qed
  have orphan: "\<not> rooted cs c"
    if c: "c \<in> set cs" and p: "c_parent_id c = Some p" and np: "p \<notin> c_id ` set cs" for c p
  proof -
    have "find (\<lambda>x. c_id x = p) cs = None"
      using np by (auto simp: find_None_iff)
    then have "chain_depth cs (length cs) (Some p) = None"
      by (cases "length cs") simp_all
    then show ?thesis using p by (simp add: rooted_def)
  qed
  have below: "\<not> rooted cs c"
    if c: "c \<in> set cs" and x: "x \<in> set cs" and p: "c_parent_id c = Some (c_id x)"
      and nr: "\<not> rooted cs x" for c x
  proof
    assume "rooted cs c"
    then obtain k where k: "chain_depth cs (length cs) (Some (c_id x)) = Some k"
      using p by (auto simp: rooted_def)
    then obtain k' where k': "k = Suc k'"
      by (cases k) (auto dest: chain_depth_zero)
    obtain y n where "find (\<lambda>y. c_id y = c_id x) cs = Some y"
      and "chain_depth cs n (c_parent_id y) = Some k'"
      using chain_depth_step k k' by metis
    then have "chain_depth cs n (c_parent_id x) = Some k'"
      using find_by_id[OF assms x] by simp
    then show False
      using rooted_by_depth[OF x] nr by blast
  qed
  show ?thesis
    using run same only absent orphan below by blast
qed

theorem unrooted_comments_are_omitted_witness:
  "distinct (map c_id orphan_thread) \<and>
   build_comment_tree (length orphan_thread) orphan_thread =
     Some [thread_dict 1 1 [thread_dict 4 4 []]] \<and>
   \<not> rooted orphan_thread (thread_comment 2 (Some 9) 2) \<and>
   \<not> rooted orphan_thread (thread_comment 3 (Some 2) 3) \<and>
   rooted orphan_thread (thread_comment 4 (Some 1) 4)"
proof -
  have ids: "distinct (map c_id orphan_thread)"
    by (simp add: orphan_thread_def thread_comment_def)
  obtain forest where
    orphan: "\<forall>c \<in> set orphan_thread. \<forall>p.
        c_parent_id c = Some p \<and> p \<notin> c_id ` set orphan_thread \<longrightarrow> \<not> rooted orphan_thread c"
    and below: "\<forall>c \<in> set orphan_thread. \<forall>x \<in> set orphan_thread.
        c_parent_id c = Some (c_id x) \<and> \<not> rooted orphan_thread x \<longrightarrow> \<not> rooted orphan_thread c"
    and only: "\<forall>d \<in> set forest. \<forall>n \<in> set (nodes d).
        \<exists>x \<in> set orphan_thread. dict_fields n = comment_fields x \<and> rooted orphan_thread x"
    and run: "build_comment_tree (length orphan_thread) orphan_thread = Some forest"
    using unrooted_comments_are_omitted[OF ids] by blast
  have two: "\<not> rooted orphan_thread (thread_comment 2 (Some 9) 2)"
    using orphan by (simp add: orphan_thread_def thread_comment_def)
  then have three: "\<not> rooted orphan_thread (thread_comment 3 (Some 2) 3)"
    using below by (simp add: orphan_thread_def thread_comment_def)
  have forest: "forest = [thread_dict 1 1 [thread_dict 4 4 []]]"
    using run orphan_thread_tree by simp
  have "\<exists>x \<in> set orphan_thread.
      dict_fields (thread_dict 4 4 []) = comment_fields x \<and> rooted orphan_thread x"
    using only unfolding forest by (simp add: thread_dict_def)
  then have four: "rooted orphan_thread (thread_comment 4 (Some 1) 4)"
    by (auto simp: orphan_thread_def thread_comment_def thread_dict_def dict_fields_def
        comment_fields_def)
  show ?thesis
    using ids orphan_thread_tree two three four by simp
qed

end
